theory Spec2Isabelle
  imports Complex_Main "HOL-Library.Word"
begin

unbundle bit_operations_syntax

section \<open>Poisson-disk subsampling on an octree: data model\<close>

text \<open>
  The C++ sources are \<^verbatim>\<open>Point.h\<close>, \<^verbatim>\<open>Sample.h\<close>, \<^verbatim>\<open>OctreeNode.h\<close>, \<^verbatim>\<open>Octree.h\<close>,
  \<^verbatim>\<open>OctreeIterator.h\<close> and \<^verbatim>\<open>SampleSelection.h\<close>.

  Conventions of the embedding.
  \<^item> The functions are given twice where they compute with \<^verbatim>\<open>double\<close>. In this first part
    every operation on doubles gives its exact real result. In the part on
    double-precision arithmetic every operation is rounded to the nearest double; the
    properties of the octree and of the neighbour query whose truth depends on the
    rounding are stated and settled there. In both parts the operations whose IEEE result
    would be infinite or not a number (division by zero, \<^verbatim>\<open>log2\<close> of a non-positive
    number) have no value (\<open>None\<close>), and so has the conversion of such a value, or of a
    value outside \<open>[0, 2^32)\<close>, to \<^verbatim>\<open>unsigned int\<close>, which C++ leaves undefined.
  \<^item> \<^verbatim>\<open>unsigned int\<close> locational codes are 32-bit words. Depths and counters are natural
    numbers: the code never subtracts from a depth that is zero inside the loops modelled
    here, and the counters only count stored samples.
  \<^item> A leaf stores copies of the samples in a \<^verbatim>\<open>std::list\<close>, and the iterator and the
    selection engines work on pointers to these copies. The copies live in a store (a list
    of samples); the address of a copy is its index, the number of samples inserted before
    it, and a leaf holds the addresses of its copies in insertion order.
  \<^item> The normal and tangent of a sample and the parent pointer of a node are never read by
    the operations modelled here and are left out, as is the per-level statistics counter
    \<^verbatim>\<open>m_nb_non_empty_cells\<close>.
\<close>

type_synonym uint = "32 word"

datatype fault = Undefined_conversion | Uninitialized_read | Invalid_iterator

record Point =
  m_x :: real
  m_y :: real
  m_z :: real

record Sample = Point +
  m_selected :: bool
  m_covered :: bool
  m_ncovered :: nat

text \<open>The constructor \<^verbatim>\<open>Sample(x, y, z)\<close>: selected, not covered, covered by nobody.\<close>

definition new_Sample :: "real \<Rightarrow> real \<Rightarrow> real \<Rightarrow> Sample" where
  "new_Sample x y z =
     \<lparr>m_x = x, m_y = y, m_z = z, m_selected = True, m_covered = False, m_ncovered = 0\<rparr>"

text \<open>
  A node of the octree. \<open>getNChild\<close> is \<^verbatim>\<open>m_nchild\<close>, which the constructors leave
  uninitialised (\<open>None\<close>) and only \<^verbatim>\<open>initializeChild\<close> sets. \<open>m_child\<close> is the array of the
  eight child pointers, \<open>None\<close> for \<^verbatim>\<open>NULL\<close>. \<open>m_points\<close> holds the addresses of the samples
  of a leaf.
\<close>

datatype OctreeNode = OctreeNode
  (getOrigin: Point) (getSize: real) (getDepth: nat)
  (getXLoc: uint) (getYLoc: uint) (getZLoc: uint)
  (getNChild: "uint option") (getNpts: nat)
  (m_child: "OctreeNode option list") (m_points: "nat list")

record Octree =
  m_depth :: nat
  m_npoints :: nat
  m_origin :: Point
  m_size :: real
  m_binsize :: uint
  m_root :: OctreeNode
  store :: "Sample list"

text \<open>Modelled from the spec: \<^verbatim>\<open>pow2\<close> of the missing \<^verbatim>\<open>utilities.h\<close>, the power of two.\<close>

definition pow2 :: "nat \<Rightarrow> nat" where
  "pow2 k = 2 ^ k"

text \<open>
  Modelled from the spec: \<^verbatim>\<open>dist2\<close> of the missing \<^verbatim>\<open>utilities.h\<close>, the squared Euclidean
  distance \<open>(q - p) \<cdot> (q - p)\<close> of two points.
\<close>

definition dist2 :: "'a Point_scheme \<Rightarrow> 'b Point_scheme \<Rightarrow> real" where
  "dist2 q p = (m_x q - m_x p) * (m_x q - m_x p) + (m_y q - m_y p) * (m_y q - m_y p)
     + (m_z q - m_z p) * (m_z q - m_z p)"

text \<open>
  The conversion \<^verbatim>\<open>(unsigned int) v\<close> of a double: truncation towards zero, undefined when
  the truncated value is not representable.
\<close>

definition to_uint :: "real \<Rightarrow> uint option" where
  "to_uint v =
     (let t = (if 0 \<le> v then \<lfloor>v\<rfloor> else \<lceil>v\<rceil>)
      in if 0 \<le> t \<and> t < 2 ^ 32 then Some (word_of_int t) else None)"

text \<open>\<^verbatim>\<open>floor(log2(v))\<close>; \<^verbatim>\<open>log2\<close> is infinite or not a number unless \<open>v\<close> is positive.\<close>

definition floor_log2 :: "real \<Rightarrow> int option" where
  "floor_log2 v = (if 0 < v then Some \<lfloor>log 2 v\<rfloor> else None)"

subsection \<open>OctreeNode.h\<close>

text \<open>\<^verbatim>\<open>TOctreeNode(origin, size, depth)\<close>.\<close>

definition new_OctreeNode :: "Point \<Rightarrow> real \<Rightarrow> nat \<Rightarrow> OctreeNode" where
  "new_OctreeNode origin sz depth =
     OctreeNode origin sz depth 0 0 0 None 0 (replicate 8 None) []"

text \<open>
  \<^verbatim>\<open>getChild(index)\<close> reads \<^verbatim>\<open>m_child[index % 8]\<close>. The array has eight slots; the list of
  every node made by the constructor has length 8, and the bound check only makes the
  lookup total on other lists.
\<close>

definition getChild :: "OctreeNode \<Rightarrow> uint \<Rightarrow> OctreeNode option" where
  "getChild node index =
     (let i = unat index mod 8
      in if i < length (m_child node) then m_child node ! i else None)"

text \<open>Writing the slot \<^verbatim>\<open>m_child[index]\<close> of a node.\<close>

definition setChild :: "OctreeNode \<Rightarrow> uint \<Rightarrow> OctreeNode \<Rightarrow> OctreeNode" where
  "setChild node index child =
     (case node of OctreeNode og s d xl yl zl nc np ch pts \<Rightarrow>
        OctreeNode og s d xl yl zl nc np (ch[unat index mod 8 := Some child]) pts)"

definition setLoc :: "OctreeNode \<Rightarrow> uint \<Rightarrow> uint \<Rightarrow> uint \<Rightarrow> OctreeNode" where
  "setLoc node xl yl zl =
     (case node of OctreeNode og s d _ _ _ nc np ch pts \<Rightarrow>
        OctreeNode og s d xl yl zl nc np ch pts)"

text \<open>
  \<^verbatim>\<open>initializeChild(index, origin)\<close>: the new child, of half the size and one level down,
  with its child number set. The caller stores it in the slot \<open>index\<close>.
\<close>

definition initializeChild :: "OctreeNode \<Rightarrow> uint \<Rightarrow> Point \<Rightarrow> OctreeNode" where
  "initializeChild node index origin =
     (let sz = getSize node / 2;
          depth = getDepth node - 1
      in OctreeNode origin sz depth 0 0 0 (Some index) 0 (replicate 8 None) [])"

text \<open>\<^verbatim>\<open>TOctreeNode::addPoint\<close>: append the copy (its address) and count it.\<close>

definition node_addPoint :: "OctreeNode \<Rightarrow> nat \<Rightarrow> OctreeNode" where
  "node_addPoint node a =
     (case node of OctreeNode og s d xl yl zl nc np ch pts \<Rightarrow>
        OctreeNode og s d xl yl zl nc (np + 1) ch (pts @ [a]))"

text \<open>All nodes of a tree, the node itself first, children in index order.\<close>

lemma size_list_option_mem:
  "Some c \<in> set cs \<Longrightarrow> size c < Suc (size_list (size_option size) cs)"
  by (induction cs) auto

lemma child_size [termination_simp]: "Some c \<in> set (m_child n) \<Longrightarrow> size c < size n"
  by (cases n) (auto dest: size_list_option_mem)

lemma getChild_mem: "getChild node index = Some c \<Longrightarrow> Some c \<in> set (m_child node)"
  by (auto simp: getChild_def Let_def split: if_splits dest: nth_mem)

lemma getChild_size [termination_simp]:
  "getChild node index = Some c \<Longrightarrow> size c < size node"
  by (blast intro: child_size getChild_mem)

fun subnodes :: "OctreeNode \<Rightarrow> OctreeNode list" where
  "subnodes n =
     n # concat (map (\<lambda>co. case co of None \<Rightarrow> [] | Some c \<Rightarrow> subnodes c) (m_child n))"

lemma subnodes_child_le:
  "Some c \<in> set cs \<Longrightarrow>
     length (subnodes c)
       \<le> length (concat (map (\<lambda>co. case co of None \<Rightarrow> [] | Some c \<Rightarrow> subnodes c) cs))"
  by (induction cs) auto

lemma getChild_subnodes_less:
  "getChild node index = Some c \<Longrightarrow> length (subnodes c) < length (subnodes node)"
  using subnodes_child_le [OF getChild_mem, of node index c] by simp

subsection \<open>Octree.h\<close>

text \<open>The default constructor \<^verbatim>\<open>TOctree()\<close>, \<^verbatim>\<open>setDepth\<close> and \<^verbatim>\<open>initialize\<close>.\<close>

definition new_Octree :: Octree where
  "new_Octree =
     \<lparr>m_depth = 0, m_npoints = 0, m_origin = \<lparr>m_x = 0, m_y = 0, m_z = 0\<rparr>, m_size = 0,
      m_binsize = 0,
      m_root = new_OctreeNode \<lparr>m_x = 0, m_y = 0, m_z = 0\<rparr> 0 0, store = []\<rparr>"

definition setDepth :: "Octree \<Rightarrow> nat \<Rightarrow> Octree" where
  "setDepth oc depth = oc\<lparr>m_depth := depth, m_binsize := of_nat (pow2 depth)\<rparr>"

definition initialize :: "Octree \<Rightarrow> Point \<Rightarrow> real \<Rightarrow> Octree" where
  "initialize oc origin sz =
     oc\<lparr>m_size := sz, m_origin := origin,
        m_root := setLoc (new_OctreeNode origin sz (m_depth oc)) 0 0 0\<rparr>"

text \<open>
  The locational code of a coordinate in \<^verbatim>\<open>addPoint\<close>:
  \<^verbatim>\<open>(unsigned int)((v - origin) / m_size * m_binsize)\<close>.
\<close>

definition locCode :: "Octree \<Rightarrow> real \<Rightarrow> real \<Rightarrow> uint option" where
  "locCode oc v og =
     (if m_size oc = 0 then None
      else to_uint ((v - og) / m_size oc * real (unat (m_binsize oc))))"

text \<open>
  The loop of \<^verbatim>\<open>addPoint\<close>, from \<open>node\<close> down to a leaf. \<open>l\<close> is the bit position, one less
  than the depth of \<open>node\<close> when the loop starts at the root; it is only read while the
  depth of \<open>node\<close> is not zero. The result is the updated subtree.
\<close>

function addPoint_loop ::
  "OctreeNode \<Rightarrow> nat \<Rightarrow> uint \<Rightarrow> uint \<Rightarrow> uint \<Rightarrow> nat \<Rightarrow> OctreeNode"
where
  "addPoint_loop node l codx cody codz a =
     (if getDepth node \<noteq> 0 then
        let childBranchBit = push_bit l (1 :: uint);
            x = drop_bit l (codx AND childBranchBit);
            y = drop_bit l (cody AND childBranchBit);
            z = drop_bit l (codz AND childBranchBit);
            childIndex = push_bit 2 x + push_bit 1 y + z
        in (case getChild node childIndex of
              None \<Rightarrow>
                let childSize = getSize node / 2;
                    childDepth = getDepth node - 1;
                    origin = getOrigin node;
                    childOrigin = \<lparr>m_x = m_x origin + real (unat x) * childSize,
                                   m_y = m_y origin + real (unat y) * childSize,
                                   m_z = m_z origin + real (unat z) * childSize\<rparr>;
                    child = initializeChild node childIndex childOrigin;
                    child = setLoc child
                              (getXLoc node + push_bit childDepth x)
                              (getYLoc node + push_bit childDepth y)
                              (getZLoc node + push_bit childDepth z)
                in setChild node childIndex (addPoint_loop child (l - 1) codx cody codz a)
            | Some child \<Rightarrow>
                setChild node childIndex (addPoint_loop child (l - 1) codx cody codz a))
      else node_addPoint node a)"
  by pat_completeness auto
termination
proof (relation "measures [\<lambda>(node, l, cx, cy, cz, a). length (subnodes node),
                           \<lambda>(node, l, cx, cy, cz, a). getDepth node]", goal_cases)
  case 1
  show ?case by simp
next
  case (2 node l codx cody codz a cbb x y z ci cs cd og co child child')
  have "length (subnodes child') = 1"
    unfolding 2 initializeChild_def setLoc_def Let_def by simp
  moreover have "getDepth child' < getDepth node"
    using 2(1) unfolding 2 initializeChild_def setLoc_def Let_def by simp
  moreover have "1 \<le> length (subnodes node)"
    by simp
  ultimately show ?case by (auto simp del: subnodes.simps)
next
  case 3
  then show ?case by (auto simp del: subnodes.simps dest: getChild_subnodes_less)
qed

definition addPoint :: "Octree \<Rightarrow> Sample \<Rightarrow> fault + Octree" where
  "addPoint oc pt =
     (case (locCode oc (m_x pt) (m_x (m_origin oc)),
            locCode oc (m_y pt) (m_y (m_origin oc)),
            locCode oc (m_z pt) (m_z (m_origin oc))) of
        (Some codx, Some cody, Some codz) \<Rightarrow>
          let node = m_root oc;
              l = getDepth node - 1
          in Inr (oc\<lparr>m_root := addPoint_loop node l codx cody codz (length (store oc)),
                     store := store oc @ [pt],
                     m_npoints := m_npoints oc + 1\<rparr>)
      | _ \<Rightarrow> Inl Undefined_conversion)"

fun addPoints :: "Octree \<Rightarrow> Sample list \<Rightarrow> fault + Octree" where
  "addPoints oc [] = Inr oc"
| "addPoints oc (pt # pts) =
     (case addPoint oc pt of Inl e \<Rightarrow> Inl e | Inr oc' \<Rightarrow> addPoints oc' pts)"

text \<open>
  \<^verbatim>\<open>getNodes(depth, starting_node, nodes)\<close>: the nodes of the given depth below
  \<open>starting_node\<close>, appended to \<open>nodes\<close> in depth-first order.
\<close>

fun getNodes :: "nat \<Rightarrow> OctreeNode \<Rightarrow> OctreeNode list \<Rightarrow> OctreeNode list" where
  "getNodes depth starting_node nodes =
     (if getDepth starting_node = depth then nodes @ [starting_node]
      else fold (\<lambda>i ns. case getChild starting_node i of
                            None \<Rightarrow> ns
                          | Some c \<Rightarrow> getNodes depth c ns)
             [0, 1, 2, 3, 4, 5, 6, 7] nodes)"

text \<open>
  The bucketed \<^verbatim>\<open>getNodes(depth, starting_node, node_collection)\<close>: eight empty buckets
  are appended to the collection, then the nodes are taken from the back of the list and
  each is pushed on the bucket \<^verbatim>\<open>node_collection[nchild]\<close>. Reading the child number of a
  node that has none (the root) is a read of an uninitialised member.
\<close>

definition push_bucket ::
  "OctreeNode \<Rightarrow> fault + OctreeNode list list \<Rightarrow> fault + OctreeNode list list"
where
  "push_bucket node coll =
     (case coll of
        Inl e \<Rightarrow> Inl e
      | Inr node_collection \<Rightarrow>
          (case getNChild node of
             None \<Rightarrow> Inl Uninitialized_read
           | Some nchild \<Rightarrow>
               if unat nchild < length node_collection
               then Inr (node_collection[unat nchild := node_collection ! unat nchild @ [node]])
               else Inl Invalid_iterator))"

definition getNodes_buckets ::
  "nat \<Rightarrow> OctreeNode \<Rightarrow> OctreeNode list list \<Rightarrow> fault + OctreeNode list list"
where
  "getNodes_buckets depth starting_node node_collection =
     (let nodes = getNodes depth starting_node []
      in fold push_bucket (rev nodes) (Inr (node_collection @ replicate 8 [])))"

subsection \<open>OctreeIterator.h\<close>

record OctreeIterator =
  m_activeDepth :: nat
  m_radius :: real
  m_sqradius :: real

text \<open>\<^verbatim>\<open>TOctreeIterator(octree)\<close> and \<^verbatim>\<open>setDepth(depth)\<close>.\<close>

definition new_OctreeIterator :: "Octree \<Rightarrow> OctreeIterator" where
  "new_OctreeIterator oc =
     (let r = m_size oc / real (pow2 (m_depth oc))
      in \<lparr>m_activeDepth = m_depth oc, m_radius = r, m_sqradius = r * r\<rparr>)"

definition it_setDepth :: "Octree \<Rightarrow> OctreeIterator \<Rightarrow> nat \<Rightarrow> bool \<times> OctreeIterator" where
  "it_setDepth oc it depth =
     (if depth \<le> m_depth oc then
        let r = m_size oc / real (pow2 depth)
        in (True, it\<lparr>m_activeDepth := depth, m_radius := r, m_sqradius := r * r\<rparr>)
      else (False, it))"

text \<open>
  The expression \<^verbatim>\<open>(unsigned int)(getDepth() - floor(log2(getSize() / den)))\<close> of \<^verbatim>\<open>setR\<close>
  (with \<open>den = 2 r\<close>) and of the dart thrower (with \<open>den = 1.5 d\<close>).
\<close>

definition depth_for :: "Octree \<Rightarrow> real \<Rightarrow> nat option" where
  "depth_for oc den =
     (if den = 0 then None
      else case floor_log2 (m_size oc / den) of
             None \<Rightarrow> None
           | Some f \<Rightarrow> map_option unat (to_uint (real (m_depth oc) - real_of_int f)))"

text \<open>
  \<^verbatim>\<open>setR(radius)\<close>. The only test is \<^verbatim>\<open>radius < getSize()\<close>. The radius and its square are
  assigned before the active depth is computed.
\<close>

definition setR :: "Octree \<Rightarrow> OctreeIterator \<Rightarrow> real \<Rightarrow> fault + bool \<times> OctreeIterator" where
  "setR oc it radius =
     (if radius < m_size oc then
        let it = it\<lparr>m_radius := radius, m_sqradius := radius * radius\<rparr>
        in (case depth_for oc (2 * m_radius it) of
              None \<Rightarrow> Inl Undefined_conversion
            | Some d \<Rightarrow> Inr (True, it\<lparr>m_activeDepth := d\<rparr>))
      else Inr (False, it))"

text \<open>
  \<^verbatim>\<open>traverseToLevel\<close>: follow the locational codes from \<open>node\<close> down to level \<open>k\<close>, stopping
  where the child is missing. \<open>l\<close> starts as the depth of \<open>node\<close> minus one and is read only
  while the depth of the current node is above \<open>k\<close>.
\<close>

fun traverseToLevel :: "OctreeNode \<Rightarrow> nat \<Rightarrow> uint \<Rightarrow> uint \<Rightarrow> uint \<Rightarrow> nat \<Rightarrow> OctreeNode" where
  "traverseToLevel node l xLocCode yLocCode zLocCode k =
     (if getDepth node > k then
        let childBranchBit = push_bit l (1 :: uint);
            childIndex = push_bit 2 (drop_bit l (xLocCode AND childBranchBit))
                       + push_bit 1 (drop_bit l (yLocCode AND childBranchBit))
                       + drop_bit l (zLocCode AND childBranchBit)
        in (case getChild node childIndex of
              Some c \<Rightarrow> traverseToLevel c (l - 1) xLocCode yLocCode zLocCode k
            | None \<Rightarrow> node)
      else node)"

text \<open>The call \<^verbatim>\<open>traverseToLevel(&node, x, y, z, k)\<close> with \<open>node\<close> the root.\<close>

definition traverseFromRoot :: "Octree \<Rightarrow> uint \<Rightarrow> uint \<Rightarrow> uint \<Rightarrow> nat \<Rightarrow> OctreeNode" where
  "traverseFromRoot oc x y z k =
     traverseToLevel (m_root oc) (getDepth (m_root oc) - 1) x y z k"

text \<open>
  \<^verbatim>\<open>computeCode\<close>: \<^verbatim>\<open>(unsigned int)((v - origin) * multiplier)\<close> with
  \<^verbatim>\<open>multiplier = 1.0 / getSize() * getBinSize()\<close>, and \<^verbatim>\<open>locatePointNode\<close>.
\<close>

definition computeCode :: "Octree \<Rightarrow> 'a Point_scheme \<Rightarrow> (uint \<times> uint \<times> uint) option" where
  "computeCode oc point =
     (if m_size oc = 0 then None
      else
        let multiplier = 1 / m_size oc * real (unat (m_binsize oc))
        in (case (to_uint ((m_x point - m_x (m_origin oc)) * multiplier),
                  to_uint ((m_y point - m_y (m_origin oc)) * multiplier),
                  to_uint ((m_z point - m_z (m_origin oc)) * multiplier)) of
              (Some codx, Some cody, Some codz) \<Rightarrow> Some (codx, cody, codz)
            | _ \<Rightarrow> None))"

definition locatePointNode ::
  "Octree \<Rightarrow> OctreeIterator \<Rightarrow> 'a Point_scheme \<Rightarrow> fault + OctreeNode"
where
  "locatePointNode oc it point =
     (case computeCode oc point of
        None \<Rightarrow> Inl Undefined_conversion
      | Some (codx, cody, codz) \<Rightarrow> Inr (traverseFromRoot oc codx cody codz (m_activeDepth it)))"

text \<open>The left and right neighbour codes of a cell along each axis.\<close>

definition getXLeftCode :: "OctreeNode \<Rightarrow> uint" where
  "getXLeftCode node = getXLoc node - 1"

definition getXRightCode :: "OctreeNode \<Rightarrow> uint" where
  "getXRightCode node = getXLoc node + of_nat (pow2 (getDepth node))"

definition getYLeftCode :: "OctreeNode \<Rightarrow> uint" where
  "getYLeftCode node = getYLoc node - 1"

definition getYRightCode :: "OctreeNode \<Rightarrow> uint" where
  "getYRightCode node = getYLoc node + of_nat (pow2 (getDepth node))"

definition getZLeftCode :: "OctreeNode \<Rightarrow> uint" where
  "getZLeftCode node = getZLoc node - 1"

definition getZRightCode :: "OctreeNode \<Rightarrow> uint" where
  "getZRightCode node = getZLoc node + of_nat (pow2 (getDepth node))"

text \<open>
  \<^verbatim>\<open>explore(node, query_point, neighbors)\<close>: every sample of every leaf below \<open>node\<close> whose
  squared distance to the query is strictly below the squared radius is appended; and the
  overload that also appends the squared distance.
\<close>

fun explore ::
  "OctreeIterator \<Rightarrow> Sample list \<Rightarrow> OctreeNode \<Rightarrow> 'a Point_scheme \<Rightarrow> nat list \<Rightarrow> nat list"
where
  "explore it st node query_point neighbors =
     (if getDepth node \<noteq> 0 then
        fold (\<lambda>i ns. case getChild node i of
                       None \<Rightarrow> ns
                     | Some c \<Rightarrow> explore it st c query_point ns)
          [0, 1, 2, 3, 4, 5, 6, 7] neighbors
      else if getNpts node \<noteq> 0 then
        fold (\<lambda>iter ns. let dist = dist2 query_point (st ! iter)
                        in if dist < m_sqradius it then ns @ [iter] else ns)
          (m_points node) neighbors
      else neighbors)"

fun explore_dist ::
  "OctreeIterator \<Rightarrow> Sample list \<Rightarrow> OctreeNode \<Rightarrow> 'a Point_scheme \<Rightarrow>
     nat list \<times> real list \<Rightarrow> nat list \<times> real list"
where
  "explore_dist it st node query_point nd =
     (if getDepth node \<noteq> 0 then
        fold (\<lambda>i nd. case getChild node i of
                       None \<Rightarrow> nd
                     | Some c \<Rightarrow> explore_dist it st c query_point nd)
          [0, 1, 2, 3, 4, 5, 6, 7] nd
      else if getNpts node \<noteq> 0 then
        fold (\<lambda>iter (neighbors, distances).
                let dist = dist2 query_point (st ! iter)
                in if dist < m_sqradius it then (neighbors @ [iter], distances @ [dist])
                   else (neighbors, distances))
          (m_points node) nd
      else nd)"

text \<open>
  The candidate codes of one axis in \<^verbatim>\<open>getNeighbors\<close>: the code of the query cell, then the
  left code if the ball reaches below the cell and stays above the octree origin, then the
  right code under the mirrored test.
\<close>

definition axis_locs ::
  "real \<Rightarrow> real \<Rightarrow> real \<Rightarrow> real \<Rightarrow> real \<Rightarrow> real \<Rightarrow> uint \<Rightarrow> uint \<Rightarrow> uint \<Rightarrow> uint list"
where
  "axis_locs q r node_origin node_size octree_origin octree_size loc left right =
     [loc]
     @ (if q - r < node_origin \<and> q - r > octree_origin then [left] else [])
     @ (if q + r > node_origin + node_size \<and> q + r < octree_origin + octree_size
        then [right] else [])"

text \<open>
  The triple loop of \<^verbatim>\<open>getNeighbors\<close> over the candidate codes: the cells that
  \<^verbatim>\<open>traverseToLevel\<close> reaches from the root and that have depth \<open>s\<close>, in the order in which
  the loop passes them to \<^verbatim>\<open>explore\<close>.
\<close>

definition explored_cells ::
  "Octree \<Rightarrow> OctreeIterator \<Rightarrow> 'a Point_scheme \<Rightarrow> OctreeNode \<Rightarrow> nat \<Rightarrow> OctreeNode list"
where
  "explored_cells oc it query query_node s =
     (let octree_origin = m_origin oc;
          node_origin = getOrigin query_node;
          node_size = getSize query_node;
          octree_size = m_size oc;
          xloc = axis_locs (m_x query) (m_radius it) (m_x node_origin) node_size
                   (m_x octree_origin) octree_size
                   (getXLoc query_node) (getXLeftCode query_node) (getXRightCode query_node);
          yloc = axis_locs (m_y query) (m_radius it) (m_y node_origin) node_size
                   (m_y octree_origin) octree_size
                   (getYLoc query_node) (getYLeftCode query_node) (getYRightCode query_node);
          zloc = axis_locs (m_z query) (m_radius it) (m_z node_origin) node_size
                   (m_z octree_origin) octree_size
                   (getZLoc query_node) (getZLeftCode query_node) (getZRightCode query_node)
      in concat (map (\<lambda>xi. concat (map (\<lambda>yi. concat (map (\<lambda>zi.
           let node = traverseFromRoot oc xi yi zi s
           in if getDepth node = s then [node] else []) zloc)) yloc)) xloc))"

text \<open>
  The level searched by \<^verbatim>\<open>getNeighbors\<close> with a query node: the active depth in the first
  branch, \<^verbatim>\<open>s = query_node->getDepth()\<close> in the other.
\<close>

definition search_level :: "OctreeIterator \<Rightarrow> OctreeNode \<Rightarrow> nat" where
  "search_level it query_node =
     (if getDepth query_node = m_activeDepth it then m_activeDepth it else getDepth query_node)"

text \<open>
  \<^verbatim>\<open>getNeighbors(query, query_node, neighbors)\<close> and
  \<^verbatim>\<open>getNeighbors(query, query_node, neighbors, distances)\<close>. The returned number is the
  length of the neighbour list.
\<close>

definition getNeighbors_node ::
  "Octree \<Rightarrow> OctreeIterator \<Rightarrow> 'a Point_scheme \<Rightarrow> OctreeNode \<Rightarrow> nat list \<Rightarrow> nat list"
where
  "getNeighbors_node oc it query query_node neighbors =
     fold (\<lambda>node ns. explore it (store oc) node query ns)
       (explored_cells oc it query query_node (search_level it query_node)) neighbors"

definition getNeighbors_node_dist ::
  "Octree \<Rightarrow> OctreeIterator \<Rightarrow> 'a Point_scheme \<Rightarrow> OctreeNode \<Rightarrow>
     nat list \<times> real list \<Rightarrow> nat list \<times> real list"
where
  "getNeighbors_node_dist oc it query query_node nd =
     fold (\<lambda>node nd. explore_dist it (store oc) node query nd)
       (explored_cells oc it query query_node (search_level it query_node)) nd"

text \<open>
  \<^verbatim>\<open>getNeighbors(query, neighbors)\<close> and \<^verbatim>\<open>getNeighbors(query, neighbors, distances)\<close>: the
  query node is located first.
\<close>

definition getNeighbors ::
  "Octree \<Rightarrow> OctreeIterator \<Rightarrow> 'a Point_scheme \<Rightarrow> nat list \<Rightarrow> fault + nat list"
where
  "getNeighbors oc it query neighbors =
     (case locatePointNode oc it query of
        Inl e \<Rightarrow> Inl e
      | Inr node \<Rightarrow> Inr (getNeighbors_node oc it query node neighbors))"

definition getNeighbors_dist ::
  "Octree \<Rightarrow> OctreeIterator \<Rightarrow> 'a Point_scheme \<Rightarrow> nat list \<times> real list \<Rightarrow>
     fault + nat list \<times> real list"
where
  "getNeighbors_dist oc it query nd =
     (case locatePointNode oc it query of
        Inl e \<Rightarrow> Inl e
      | Inr node \<Rightarrow> Inr (getNeighbors_node_dist oc it query node nd))"

subsection \<open>SampleSelection.h\<close>

text \<open>
  The selection object: its radius and squared radius, the number of selected samples and
  the list of the selected samples (pointers). \<^verbatim>\<open>m_sigma\<close> is never read and is left out.
  The octree and the iterator it points to are passed along.
\<close>

record SampleSelection =
  s_radius :: real
  s_sqradius :: real
  m_nselected :: nat
  m_selected_samples :: "nat list"

text \<open>
  \<^verbatim>\<open>TSampleSelection(radius, octree, iterator)\<close>: \<^verbatim>\<open>setRadius(radius)\<close>, then
  \<^verbatim>\<open>m_iterator->setR(radius)\<close>, whose result is dropped.
\<close>

definition new_SampleSelection ::
  "real \<Rightarrow> Octree \<Rightarrow> OctreeIterator \<Rightarrow> fault + SampleSelection \<times> OctreeIterator"
where
  "new_SampleSelection radius oc it =
     (case setR oc it radius of
        Inl e \<Rightarrow> Inl e
      | Inr (_, it') \<Rightarrow>
          Inr (\<lparr>s_radius = radius, s_sqradius = radius * radius, m_nselected = 0,
                 m_selected_samples = []\<rparr>, it'))"

text \<open>
  What both engines do to a neighbour \<^verbatim>\<open>*ni\<close>: \<^verbatim>\<open>setCovered(true)\<close>,
  \<^verbatim>\<open>setSelected(false)\<close>, \<^verbatim>\<open>increaseNCovered()\<close>.
\<close>

definition cover_neighbor :: "nat \<Rightarrow> Sample list \<Rightarrow> Sample list" where
  "cover_neighbor ni st =
     st[ni := (st ! ni)\<lparr>m_covered := True, m_selected := False,
                         m_ncovered := m_ncovered (st ! ni) + 1\<rparr>]"

text \<open>
  The body of the loop over the samples of a leaf in \<^verbatim>\<open>performSelection(cell, par)\<close>, on the
  store and the counter \<^verbatim>\<open>m_nselected\<close>.
\<close>

definition select_sample ::
  "Octree \<Rightarrow> OctreeIterator \<Rightarrow> OctreeNode \<Rightarrow> nat \<Rightarrow> Sample list \<times> nat \<Rightarrow> Sample list \<times> nat"
where
  "select_sample oc it par si sn =
     (case sn of (st, nselected) \<Rightarrow>
        if m_covered (st ! si) = False then
          let neighbors = getNeighbors_node (oc\<lparr>store := st\<rparr>) it (st ! si) par []
          in if length neighbors < 3 then (st[si := (st ! si)\<lparr>m_selected := False\<rparr>], nselected)
             else
               let st = fold cover_neighbor neighbors st
               in (st[si := (st ! si)\<lparr>m_selected := True\<rparr>], nselected + 1)
        else (st, nselected))"

fun performSelection_par ::
  "Octree \<Rightarrow> OctreeIterator \<Rightarrow> OctreeNode \<Rightarrow> OctreeNode \<Rightarrow> Sample list \<times> nat \<Rightarrow>
     Sample list \<times> nat"
where
  "performSelection_par oc it cell par sn =
     (if getDepth cell > 0 then
        fold (\<lambda>i sn. case getChild cell i of
                       None \<Rightarrow> sn
                     | Some c \<Rightarrow> performSelection_par oc it c par sn)
          [0, 1, 2, 3, 4, 5, 6, 7] sn
      else if getNpts cell > 0 then fold (select_sample oc it par) (m_points cell) sn
      else sn)"

fun performSelection_cell ::
  "Octree \<Rightarrow> OctreeIterator \<Rightarrow> OctreeNode \<Rightarrow> Sample list \<times> nat \<Rightarrow> Sample list \<times> nat"
where
  "performSelection_cell oc it cell sn =
     (if getDepth cell > m_activeDepth it then
        fold (\<lambda>i sn. case getChild cell i of
                       None \<Rightarrow> sn
                     | Some c \<Rightarrow> performSelection_cell oc it c sn)
          [0, 1, 2, 3, 4, 5, 6, 7] sn
      else performSelection_par oc it cell cell sn)"

text \<open>\<^verbatim>\<open>performSelection()\<close>, the greedy engine, from the root.\<close>

definition performSelection ::
  "Octree \<Rightarrow> OctreeIterator \<Rightarrow> SampleSelection \<Rightarrow> Octree \<times> SampleSelection"
where
  "performSelection oc it sel =
     (case performSelection_cell oc it (m_root oc) (store oc, m_nselected sel) of
        (st, n) \<Rightarrow> (oc\<lparr>store := st\<rparr>, sel\<lparr>m_nselected := n\<rparr>))"

text \<open>
  The dart thrower of one cell. \<^verbatim>\<open>m_all_samples\<close> is a \<^verbatim>\<open>std::set\<close> of pointers, here the
  sorted list of the addresses without repetition. \<open>rnd k\<close> is the value of the \<open>k\<close>-th call
  of \<^verbatim>\<open>rand()\<close> after the \<^verbatim>\<open>srand\<close> of the cell. The \<^verbatim>\<open>continue\<close> of a covered sample
  skips the update of \<^verbatim>\<open>nuncovered\<close>; advancing the set iterator beyond the end is a
  fault.
\<close>

definition uncovered_samples :: "Sample list \<Rightarrow> OctreeNode list \<Rightarrow> nat list" where
  "uncovered_samples st leaves =
     fold (\<lambda>it_node all_samples.
             fold (\<lambda>pi all_samples.
                     if \<not> m_covered (st ! pi) then insort_insert pi all_samples
                     else all_samples)
               (m_points it_node) all_samples)
       leaves []"

lemma length_erase_nth:
  "idx < length xs \<Longrightarrow> length (take idx xs @ drop (Suc idx) xs) < length xs"
  by (simp add: min_def)

function dart_loop ::
  "Octree \<Rightarrow> OctreeIterator \<Rightarrow> (nat \<Rightarrow> nat) \<Rightarrow> nat \<Rightarrow> nat list \<Rightarrow> nat \<Rightarrow> nat list \<Rightarrow>
     fault + Octree \<times> nat list"
where
  "dart_loop oc iterator rnd k all_samples nuncovered cell_selected_samples =
     (if nuncovered > 0 then
        let idx = rnd k mod nuncovered
        in if idx < length all_samples then
             let s = all_samples ! idx;
                 all_samples = take idx all_samples @ drop (Suc idx) all_samples
             in if m_covered (store oc ! s) then
                  dart_loop oc iterator rnd (k + 1) all_samples nuncovered cell_selected_samples
                else
                  (case getNeighbors oc iterator (store oc ! s) [] of
                     Inl e \<Rightarrow> Inl e
                   | Inr neighbors \<Rightarrow>
                       let all_samples = filter (\<lambda>a. a \<notin> set neighbors) all_samples;
                           st = fold cover_neighbor neighbors (store oc);
                           st = st[s := (st ! s)\<lparr>m_selected := True\<rparr>]
                       in dart_loop (oc\<lparr>store := st\<rparr>) iterator rnd (k + 1) all_samples
                            (length all_samples) (cell_selected_samples @ [s]))
           else Inl Invalid_iterator
      else Inr (oc, cell_selected_samples))"
  by pat_completeness auto
termination
proof (relation "measure (\<lambda>(oc, iterator, rnd, k, all_samples, n, out). length all_samples)",
    goal_cases)
  case 1
  show ?case by simp
next
  case (2 oc iterator rnd k all_samples nuncovered out idx s all1)
  show ?case
    using length_erase_nth [OF 2(3)] unfolding 2 by simp
next
  case (3 oc iterator rnd k all_samples nuncovered out idx s all1 neighbors all2)
  have "length all2 \<le> length all1"
    unfolding 3 by (rule length_filter_le)
  moreover have "length all1 < length all_samples"
    using length_erase_nth [OF 3(3)] unfolding 3 by simp
  ultimately show ?case by simp
qed

definition performDartThrowingSelection_cell ::
  "Octree \<Rightarrow> real \<Rightarrow> (nat \<Rightarrow> nat) \<Rightarrow> OctreeNode \<Rightarrow> fault + Octree \<times> nat list"
where
  "performDartThrowingSelection_cell oc radius rnd cell =
     (let leaves = getNodes 0 cell []
      in (case setR oc (new_OctreeIterator oc) radius of
            Inl e \<Rightarrow> Inl e
          | Inr (_, iterator) \<Rightarrow>
              let all_samples = uncovered_samples (store oc) leaves
              in dart_loop oc iterator rnd 0 all_samples (length all_samples) []))"

text \<open>
  One pass of \<^verbatim>\<open>performDartThrowingSelection()\<close> over the bucket \<open>i\<close>: the cells of the bucket
  one after the other (a build without OpenMP), then the merge of their lists into
  \<^verbatim>\<open>m_selected_samples\<close>. \<open>rnd i j\<close> is the random sequence of the \<open>j\<close>-th cell of the bucket.
\<close>

definition dart_cells ::
  "real \<Rightarrow> (nat \<Rightarrow> nat \<Rightarrow> nat) \<Rightarrow> OctreeNode list \<Rightarrow> Octree \<Rightarrow> fault + Octree \<times> nat list list"
where
  "dart_cells radius rnd cells oc =
     fold (\<lambda>(j, node) r.
             case r of
               Inl e \<Rightarrow> Inl e
             | Inr (oc, cell_selected_samples) \<Rightarrow>
                 (case performDartThrowingSelection_cell oc radius (rnd j) node of
                    Inl e \<Rightarrow> Inl e
                  | Inr (oc', cs) \<Rightarrow> Inr (oc', cell_selected_samples @ [cs])))
       (enumerate 0 cells) (Inr (oc, []))"

definition dart_bucket ::
  "(nat \<Rightarrow> nat \<Rightarrow> nat \<Rightarrow> nat) \<Rightarrow> OctreeNode list list \<Rightarrow> nat \<Rightarrow>
     fault + Octree \<times> SampleSelection \<Rightarrow> fault + Octree \<times> SampleSelection"
where
  "dart_bucket rnd node_collection i acc =
     (case acc of
        Inl e \<Rightarrow> Inl e
      | Inr (oc, sel) \<Rightarrow>
          (case dart_cells (s_radius sel) (rnd i) (node_collection ! i) oc of
             Inl e \<Rightarrow> Inl e
           | Inr (oc', cell_selected_samples) \<Rightarrow>
               let selected = m_selected_samples sel @ concat cell_selected_samples
               in Inr (oc', sel\<lparr>m_selected_samples := selected,
                                  m_nselected := length selected\<rparr>)))"

text \<open>
  \<^verbatim>\<open>performDartThrowingSelection()\<close>: the depth of the cells from the dilatation radius
  \<open>d = 2.1 r\<close>, the cells of that depth in their eight buckets, and the eight passes.
\<close>

definition performDartThrowingSelection ::
  "Octree \<Rightarrow> SampleSelection \<Rightarrow> (nat \<Rightarrow> nat \<Rightarrow> nat \<Rightarrow> nat) \<Rightarrow>
     fault + Octree \<times> SampleSelection"
where
  "performDartThrowingSelection oc sel rnd =
     (let d = 2.1 * s_radius sel
      in (case depth_for oc (1.5 * d) of
            None \<Rightarrow> Inl Undefined_conversion
          | Some depth \<Rightarrow>
              (case getNodes_buckets depth (m_root oc) [] of
                 Inl e \<Rightarrow> Inl e
               | Inr node_collection \<Rightarrow>
                   fold (dart_bucket rnd node_collection) [0, 1, 2, 3, 4, 5, 6, 7]
                     (Inr (oc, sel)))))"

section \<open>The invariant of the octree\<close>

text \<open>
  Every node of a tree built by \<^verbatim>\<open>initialize\<close> and \<^verbatim>\<open>addPoint\<close> satisfies \<open>cell_ok\<close>: its
  depth is at most the depth \<open>D\<close> of the octree, each locational code is a multiple of
  \<open>2 ^ depth\<close> and leaves room for the cell below \<open>2 ^ D\<close>, origin and size are those the
  code and the depth determine, and the samples of a leaf are those the relation \<open>cod\<close>
  allows at the code of the leaf. \<open>child_ok\<close> relates a node to the child in slot \<open>i\<close>.
\<close>

declare subnodes.simps [simp del]
declare addPoint_loop.simps [simp del]
declare getNodes.simps [simp del]
declare traverseToLevel.simps [simp del]
declare explore.simps [simp del]
declare explore_dist.simps [simp del]
declare performSelection_par.simps [simp del]
declare performSelection_cell.simps [simp del]
declare dart_loop.simps [simp del]

definition axis_ok :: "nat \<Rightarrow> real \<Rightarrow> real \<Rightarrow> nat \<Rightarrow> uint \<Rightarrow> real \<Rightarrow> bool" where
  "axis_ok D og S k loc x \<longleftrightarrow>
     2 ^ k dvd unat loc \<and> unat loc + 2 ^ k \<le> 2 ^ D \<and> x = og + real (unat loc) * (S / 2 ^ D)"

definition parity :: "uint \<Rightarrow> nat \<Rightarrow> nat" where
  "parity loc k = (unat loc div 2 ^ k) mod 2"

definition cell_ok ::
  "nat \<Rightarrow> Point \<Rightarrow> real \<Rightarrow> (nat \<Rightarrow> uint \<times> uint \<times> uint \<Rightarrow> bool) \<Rightarrow> OctreeNode \<Rightarrow> bool"
where
  "cell_ok D og S cod n \<longleftrightarrow>
     getDepth n \<le> D
     \<and> axis_ok D (m_x og) S (getDepth n) (getXLoc n) (m_x (getOrigin n))
     \<and> axis_ok D (m_y og) S (getDepth n) (getYLoc n) (m_y (getOrigin n))
     \<and> axis_ok D (m_z og) S (getDepth n) (getZLoc n) (m_z (getOrigin n))
     \<and> getSize n = S / 2 ^ (D - getDepth n)
     \<and> length (m_child n) = 8
     \<and> getNpts n = length (m_points n)
     \<and> (getDepth n = 0 \<longrightarrow>
          (\<forall>a \<in> set (m_points n). cod a (getXLoc n, getYLoc n, getZLoc n)))
     \<and> (\<forall>i. getNChild n = Some i \<longrightarrow>
          unat i = 4 * parity (getXLoc n) (getDepth n) + 2 * parity (getYLoc n) (getDepth n)
                     + parity (getZLoc n) (getDepth n))"

definition child_ok :: "OctreeNode \<Rightarrow> nat \<Rightarrow> OctreeNode \<Rightarrow> bool" where
  "child_ok n i c \<longleftrightarrow>
     getDepth n \<noteq> 0 \<and> getDepth c = getDepth n - 1
     \<and> unat (getXLoc c) = unat (getXLoc n) + ((i div 4) mod 2) * 2 ^ getDepth c
     \<and> unat (getYLoc c) = unat (getYLoc n) + ((i div 2) mod 2) * 2 ^ getDepth c
     \<and> unat (getZLoc c) = unat (getZLoc n) + (i mod 2) * 2 ^ getDepth c"

definition node_ok ::
  "nat \<Rightarrow> Point \<Rightarrow> real \<Rightarrow> (nat \<Rightarrow> uint \<times> uint \<times> uint \<Rightarrow> bool) \<Rightarrow> OctreeNode \<Rightarrow> bool"
where
  "node_ok D og S cod n \<longleftrightarrow>
     cell_ok D og S cod n \<and> (\<forall>i<8. \<forall>c. m_child n ! i = Some c \<longrightarrow> child_ok n i c)"

definition tree_inv ::
  "nat \<Rightarrow> Point \<Rightarrow> real \<Rightarrow> (nat \<Rightarrow> uint \<times> uint \<times> uint \<Rightarrow> bool) \<Rightarrow> OctreeNode \<Rightarrow> bool"
where
  "tree_inv D og S cod n \<longleftrightarrow> (\<forall>m \<in> set (subnodes n). node_ok D og S cod m)"

lemma set_subnodes:
  "set (subnodes n) = insert n (\<Union>c \<in> {c. Some c \<in> set (m_child n)}. set (subnodes c))"
  by (subst subnodes.simps) (auto split: option.splits)

lemma tree_inv_unfold:
  "tree_inv D og S cod n \<longleftrightarrow>
     node_ok D og S cod n \<and> (\<forall>c. Some c \<in> set (m_child n) \<longrightarrow> tree_inv D og S cod c)"
  unfolding tree_inv_def by (subst set_subnodes) auto

subsection \<open>the bit arithmetic of the descent\<close>

lemma branch_bit: "drop_bit l (c AND push_bit l (1::uint)) = of_bool (bit c l)"
  by (rule bit_word_eqI) (auto simp: bit_simps dest: bit_imp_le_length)

lemma bit_parity: "(of_bool (bit (c::uint) l) :: nat) = parity c l"
proof -
  have "bit c l \<longleftrightarrow> bit (unat c) l"
    by (simp add: bit_unsigned_iff)
  also have "\<dots> \<longleftrightarrow> odd (unat c div 2 ^ l)"
    by (rule bit_iff_odd)
  finally show ?thesis
    unfolding parity_def by (auto simp: odd_iff_mod_2_eq_one)
qed

definition childIndex :: "nat \<Rightarrow> uint \<Rightarrow> uint \<Rightarrow> uint \<Rightarrow> uint" where
  "childIndex l codx cody codz =
     push_bit 2 (drop_bit l (codx AND push_bit l 1)) + push_bit 1 (drop_bit l (cody AND push_bit l 1))
       + drop_bit l (codz AND push_bit l 1)"

lemma childIndex_unat:
  "unat (childIndex l cx cy cz) = 4 * parity cx l + 2 * parity cy l + parity cz l"
  unfolding childIndex_def branch_bit bit_parity [symmetric]
  by (cases "bit cx l"; cases "bit cy l"; cases "bit cz l") simp_all

lemma parity_le: "parity c l \<le> 1"
  unfolding parity_def by simp

lemma childIndex_less: "unat (childIndex l cx cy cz) < 8"
  unfolding childIndex_unat using parity_le [of cx l] parity_le [of cy l] parity_le [of cz l]
  by linarith

lemma parity_cases: "parity c l = 0 \<or> parity c l = 1"
  unfolding parity_def by auto

lemma childIndex_bits:
  "(unat (childIndex l cx cy cz) div 4) mod 2 = parity cx l"
  "(unat (childIndex l cx cy cz) div 2) mod 2 = parity cy l"
  "unat (childIndex l cx cy cz) mod 2 = parity cz l"
  unfolding childIndex_unat using parity_cases [of cx l] parity_cases [of cy l] parity_cases [of cz l]
  by auto

lemma unat_2p: "l < 32 \<Longrightarrow> unat ((2::uint) ^ l) = 2 ^ l"
proof -
  assume l: "l < 32"
  have "(2::uint) ^ l = word_of_nat (2 ^ l)"
    by simp
  then have "unat ((2::uint) ^ l) = 2 ^ l mod 2 ^ 32"
    by (simp only: unat_of_nat) simp
  moreover have "(2::nat) ^ l < 2 ^ 32"
    using l by (intro power_strict_increasing) simp_all
  ultimately show ?thesis by simp
qed

lemma dvd_step: "(a::nat) dvd n \<Longrightarrow> a dvd m \<Longrightarrow> n < m \<Longrightarrow> n + a \<le> m"
  by (metis dvd_add_right_iff dvd_imp_le less_imp_add_positive nat_add_left_cancel_le)

lemma unat_add_branch:
  assumes "2 ^ Suc l dvd unat (w :: uint)"
  shows "unat (w + push_bit l (of_bool (bit (c :: uint) l))) = unat w + parity c l * 2 ^ l"
proof (cases "bit c l")
  case False
  then show ?thesis by (simp flip: bit_parity)
next
  case True
  then have l: "l < 32" by (auto dest: bit_imp_le_length)
  have "unat w < 2 ^ 32" using unsigned_less [of w] by simp
  moreover have "(2::nat) ^ Suc l dvd 2 ^ 32" using l by (intro le_imp_power_dvd) simp
  ultimately have "unat w + 2 ^ Suc l \<le> 2 ^ 32"
    using assms dvd_step by blast
  moreover have "unat w + 2 ^ l < unat w + 2 ^ Suc l" by simp
  ultimately have "unat w + 2 ^ l < 2 ^ 32" by (rule less_le_trans [rotated])
  moreover have v: "unat (push_bit l (1::uint)) = 2 ^ l"
    using l by (simp add: unat_2p)
  ultimately have "unat (w + push_bit l 1) = unat w + 2 ^ l"
    by (subst unat_add_lem [THEN iffD1]) simp_all
  then show ?thesis using True
    by (simp flip: bit_parity)
qed

lemma parity_child:
  assumes "2 ^ Suc l dvd (P::nat)" "b \<le> 1"
  shows "((P + b * 2 ^ l) div 2 ^ l) mod 2 = b"
  using assms(1,2) by fastforce

lemma path_child:
  assumes "2 ^ Suc l dvd (P::nat)" "c div 2 ^ Suc l = P div 2 ^ Suc l"
  shows "c div 2 ^ l = (P + ((c div 2 ^ l) mod 2) * 2 ^ l) div 2 ^ l"
proof -
  obtain k where P: "P = 2 ^ Suc l * k"
    using assms(1) by (auto elim: dvdE)
  let ?q = "c div 2 ^ l"
  have "?q div 2 = c div (2 ^ l * 2)"
    by (rule div_mult2_eq [symmetric])
  also have "\<dots> = c div 2 ^ Suc l"
    by (simp add: mult.commute)
  also have "\<dots> = k"
    using assms(2) P by simp
  finally have "?q div 2 = k" .
  then have q: "?q = 2 * k + ?q mod 2"
    using div_mult_mod_eq [of ?q 2] by simp
  have "P + (?q mod 2) * 2 ^ l = (2 * k + ?q mod 2) * 2 ^ l"
    by (simp add: P algebra_simps)
  then have "(P + (?q mod 2) * 2 ^ l) div 2 ^ l = 2 * k + ?q mod 2"
    by simp
  with q show ?thesis by simp
qed

subsection \<open>one step of the descent\<close>

definition fresh_child :: "OctreeNode \<Rightarrow> nat \<Rightarrow> uint \<Rightarrow> uint \<Rightarrow> uint \<Rightarrow> OctreeNode" where
  "fresh_child node l codx cody codz =
     (let childBranchBit = push_bit l (1 :: uint);
          x = drop_bit l (codx AND childBranchBit);
          y = drop_bit l (cody AND childBranchBit);
          z = drop_bit l (codz AND childBranchBit);
          childIndex = push_bit 2 x + push_bit 1 y + z;
          childSize = getSize node / 2;
          childDepth = getDepth node - 1;
          origin = getOrigin node;
          childOrigin = \<lparr>m_x = m_x origin + real (unat x) * childSize,
                         m_y = m_y origin + real (unat y) * childSize,
                         m_z = m_z origin + real (unat z) * childSize\<rparr>;
          child = initializeChild node childIndex childOrigin
      in setLoc child
           (getXLoc node + push_bit childDepth x)
           (getYLoc node + push_bit childDepth y)
           (getZLoc node + push_bit childDepth z))"

lemma fresh_child_eq:
  "fresh_child node l cx cy cz =
     OctreeNode
       \<lparr>m_x = m_x (getOrigin node) + real (parity cx l) * (getSize node / 2),
        m_y = m_y (getOrigin node) + real (parity cy l) * (getSize node / 2),
        m_z = m_z (getOrigin node) + real (parity cz l) * (getSize node / 2)\<rparr>
       (getSize node / 2) (getDepth node - 1)
       (getXLoc node + push_bit (getDepth node - 1) (of_bool (bit cx l)))
       (getYLoc node + push_bit (getDepth node - 1) (of_bool (bit cy l)))
       (getZLoc node + push_bit (getDepth node - 1) (of_bool (bit cz l)))
       (Some (childIndex l cx cy cz)) 0 (replicate 8 None) []"
  unfolding fresh_child_def childIndex_def Let_def branch_bit initializeChild_def setLoc_def
  by (simp flip: bit_parity)

definition next_child :: "OctreeNode \<Rightarrow> nat \<Rightarrow> uint \<Rightarrow> uint \<Rightarrow> uint \<Rightarrow> OctreeNode" where
  "next_child node l cx cy cz =
     (case getChild node (childIndex l cx cy cz) of
        None \<Rightarrow> fresh_child node l cx cy cz
      | Some c \<Rightarrow> c)"

lemma addPoint_loop_leaf:
  "getDepth node = 0 \<Longrightarrow> addPoint_loop node l cx cy cz a = node_addPoint node a"
  by (subst addPoint_loop.simps) simp

lemma addPoint_loop_step:
  "getDepth node \<noteq> 0 \<Longrightarrow>
     addPoint_loop node l cx cy cz a =
       setChild node (childIndex l cx cy cz)
         (addPoint_loop (next_child node l cx cy cz) (l - 1) cx cy cz a)"
  by (subst addPoint_loop.simps)
     (simp only: Let_def childIndex_def fresh_child_def next_child_def if_True
        split: option.splits, simp)

lemma addPoint_loop_induct [case_names leaf step]:
  assumes "\<And>node l cx cy cz. getDepth node = 0 \<Longrightarrow> P node l cx cy cz"
    and "\<And>node l cx cy cz. getDepth node \<noteq> 0 \<Longrightarrow>
           P (next_child node l cx cy cz) (l - 1) cx cy cz \<Longrightarrow> P node l cx cy cz"
  shows "P node l cx cy cz"
proof (induction node l cx cy cz "0::nat" rule: addPoint_loop.induct)
  case (1 node l codx cody codz)
  show ?case
  proof (cases "getDepth node = 0")
    case True
    then show ?thesis by (rule assms(1))
  next
    case False
    show ?thesis
    proof (rule assms(2) [OF False], cases "getChild node (childIndex l codx cody codz)")
      case None
      have "P (fresh_child node l codx cody codz) (l - 1) codx cody codz"
        unfolding fresh_child_def Let_def
        by (rule 1(1) [OF False refl refl refl refl refl _ refl refl refl refl refl refl])
           (use None in \<open>simp only: childIndex_def\<close>)
      then show "P (next_child node l codx cody codz) (l - 1) codx cody codz"
        using None by (simp add: next_child_def)
    next
      case (Some c)
      have "P c (l - 1) codx cody codz"
        by (rule 1(2) [OF False refl refl refl refl refl])
           (use Some in \<open>simp only: childIndex_def\<close>)
      then show "P (next_child node l codx cody codz) (l - 1) codx cody codz"
        using Some by (simp add: next_child_def)
    qed
  qed
qed

lemma setChild_sel [simp]:
  "getOrigin (setChild n i c) = getOrigin n" "getSize (setChild n i c) = getSize n"
  "getDepth (setChild n i c) = getDepth n" "getXLoc (setChild n i c) = getXLoc n"
  "getYLoc (setChild n i c) = getYLoc n" "getZLoc (setChild n i c) = getZLoc n"
  "getNChild (setChild n i c) = getNChild n" "getNpts (setChild n i c) = getNpts n"
  "m_points (setChild n i c) = m_points n"
  "m_child (setChild n i c) = (m_child n)[unat i mod 8 := Some c]"
  by (cases n; simp add: setChild_def)+

lemma node_addPoint_sel [simp]:
  "getOrigin (node_addPoint n a) = getOrigin n" "getSize (node_addPoint n a) = getSize n"
  "getDepth (node_addPoint n a) = getDepth n" "getXLoc (node_addPoint n a) = getXLoc n"
  "getYLoc (node_addPoint n a) = getYLoc n" "getZLoc (node_addPoint n a) = getZLoc n"
  "getNChild (node_addPoint n a) = getNChild n" "getNpts (node_addPoint n a) = getNpts n + 1"
  "m_points (node_addPoint n a) = m_points n @ [a]"
  "m_child (node_addPoint n a) = m_child n"
  by (cases n; simp add: node_addPoint_def)+

lemma addPoint_loop_header:
  "getOrigin (addPoint_loop n l cx cy cz a) = getOrigin n"
  "getSize (addPoint_loop n l cx cy cz a) = getSize n"
  "getDepth (addPoint_loop n l cx cy cz a) = getDepth n"
  "getXLoc (addPoint_loop n l cx cy cz a) = getXLoc n"
  "getYLoc (addPoint_loop n l cx cy cz a) = getYLoc n"
  "getZLoc (addPoint_loop n l cx cy cz a) = getZLoc n"
  "getNChild (addPoint_loop n l cx cy cz a) = getNChild n"
  "length (m_child (addPoint_loop n l cx cy cz a)) = length (m_child n)"
  by (cases "getDepth n = 0"; simp add: addPoint_loop_leaf addPoint_loop_step)+

subsection \<open>the invariant is kept by the descent\<close>

definition on_path :: "OctreeNode \<Rightarrow> uint \<Rightarrow> uint \<Rightarrow> uint \<Rightarrow> bool" where
  "on_path n cx cy cz \<longleftrightarrow>
     unat cx div 2 ^ getDepth n = unat (getXLoc n) div 2 ^ getDepth n
     \<and> unat cy div 2 ^ getDepth n = unat (getYLoc n) div 2 ^ getDepth n
     \<and> unat cz div 2 ^ getDepth n = unat (getZLoc n) div 2 ^ getDepth n"

lemma axis_ok_child:
  assumes "axis_ok D og S (Suc k) loc x" "Suc k \<le> D" "b \<le> 1"
    and "unat loc' = unat loc + b * 2 ^ k"
  shows "axis_ok D og S k loc' (x + real b * (S / 2 ^ (D - Suc k) / 2))"
proof -
  have d: "2 ^ Suc k dvd unat loc" and u: "unat loc + 2 ^ Suc k \<le> 2 ^ D"
    and x: "x = og + real (unat loc) * (S / 2 ^ D)"
    using assms(1) by (auto simp: axis_ok_def)
  have "2 ^ k dvd unat loc"
    using d by (rule dvd_trans [rotated]) simp
  then have 1: "2 ^ k dvd unat loc'"
    by (simp add: assms(4))
  have 2: "unat loc' + 2 ^ k \<le> 2 ^ D"
    using u assms(3) by (cases "b = 0") (auto simp: assms(4) le_Suc_eq)
  have "(2::real) ^ D = 2 ^ (D - Suc k + Suc k)"
    using assms(2) by simp
  also have "\<dots> = 2 ^ (D - Suc k) * 2 ^ Suc k"
    by (rule power_add)
  finally have "S / 2 ^ (D - Suc k) / 2 = 2 ^ k * (S / 2 ^ D)"
    by (simp add: field_simps)
  then have 3: "x + real b * (S / 2 ^ (D - Suc k) / 2) = og + real (unat loc') * (S / 2 ^ D)"
    by (simp add: x assms(4) algebra_simps)
  show ?thesis
    unfolding axis_ok_def using 1 2 3 by blast
qed

lemma fresh_child_sel:
  "getDepth (fresh_child node l cx cy cz) = getDepth node - 1"
  "getSize (fresh_child node l cx cy cz) = getSize node / 2"
  "getXLoc (fresh_child node l cx cy cz)
     = getXLoc node + push_bit (getDepth node - 1) (of_bool (bit cx l))"
  "getYLoc (fresh_child node l cx cy cz)
     = getYLoc node + push_bit (getDepth node - 1) (of_bool (bit cy l))"
  "getZLoc (fresh_child node l cx cy cz)
     = getZLoc node + push_bit (getDepth node - 1) (of_bool (bit cz l))"
  "getNChild (fresh_child node l cx cy cz) = Some (childIndex l cx cy cz)"
  "getNpts (fresh_child node l cx cy cz) = 0"
  "m_points (fresh_child node l cx cy cz) = []"
  "m_child (fresh_child node l cx cy cz) = replicate 8 None"
  "m_x (getOrigin (fresh_child node l cx cy cz))
     = m_x (getOrigin node) + real (parity cx l) * (getSize node / 2)"
  "m_y (getOrigin (fresh_child node l cx cy cz))
     = m_y (getOrigin node) + real (parity cy l) * (getSize node / 2)"
  "m_z (getOrigin (fresh_child node l cx cy cz))
     = m_z (getOrigin node) + real (parity cz l) * (getSize node / 2)"
  by (simp_all add: fresh_child_eq)

lemma fresh_child_loc:
  assumes "cell_ok D og S cod node" "getDepth node = Suc l"
  shows "unat (getXLoc (fresh_child node l cx cy cz)) = unat (getXLoc node) + parity cx l * 2 ^ l"
    and "unat (getYLoc (fresh_child node l cx cy cz)) = unat (getYLoc node) + parity cy l * 2 ^ l"
    and "unat (getZLoc (fresh_child node l cx cy cz)) = unat (getZLoc node) + parity cz l * 2 ^ l"
  using assms unfolding cell_ok_def axis_ok_def
  by (simp_all add: fresh_child_sel unat_add_branch)

lemma parity_fresh:
  assumes "2 ^ Suc l dvd unat loc" "unat loc' = unat loc + parity c l * 2 ^ l"
  shows "parity loc' l = parity c l"
  unfolding parity_def [of loc'] assms(2) using assms(1) parity_le [of c l]
  by (rule parity_child)

lemma fresh_child_cell_ok:
  assumes "cell_ok D og S cod node" "getDepth node = Suc l"
  shows "cell_ok D og S cod (fresh_child node l cx cy cz)"
proof -
  let ?c = "fresh_child node l cx cy cz"
  note loc = fresh_child_loc [OF assms, of cx cy cz]
  have k: "Suc l \<le> D"
    using assms by (simp add: cell_ok_def)
  have ax: "axis_ok D (m_x og) S (Suc l) (getXLoc node) (m_x (getOrigin node))"
    "axis_ok D (m_y og) S (Suc l) (getYLoc node) (m_y (getOrigin node))"
    "axis_ok D (m_z og) S (Suc l) (getZLoc node) (m_z (getOrigin node))"
    and sz: "getSize node = S / 2 ^ (D - Suc l)"
    using assms by (simp_all add: cell_ok_def)
  have 1: "axis_ok D (m_x og) S (getDepth ?c) (getXLoc ?c) (m_x (getOrigin ?c))"
    using axis_ok_child [OF ax(1) k parity_le loc(1)] by (simp add: fresh_child_sel assms(2) sz)
  have 2: "axis_ok D (m_y og) S (getDepth ?c) (getYLoc ?c) (m_y (getOrigin ?c))"
    using axis_ok_child [OF ax(2) k parity_le loc(2)] by (simp add: fresh_child_sel assms(2) sz)
  have 3: "axis_ok D (m_z og) S (getDepth ?c) (getZLoc ?c) (m_z (getOrigin ?c))"
    using axis_ok_child [OF ax(3) k parity_le loc(3)] by (simp add: fresh_child_sel assms(2) sz)
  have "D - l = Suc (D - Suc l)"
    using k by simp
  then have 4: "getSize ?c = S / 2 ^ (D - getDepth ?c)"
    by (simp add: fresh_child_sel assms(2) sz)
  have d: "2 ^ Suc l dvd unat (getXLoc node)" "2 ^ Suc l dvd unat (getYLoc node)"
    "2 ^ Suc l dvd unat (getZLoc node)"
    using ax by (simp_all add: axis_ok_def)
  have 5: "unat (childIndex l cx cy cz)
      = 4 * parity (getXLoc ?c) (getDepth ?c) + 2 * parity (getYLoc ?c) (getDepth ?c)
        + parity (getZLoc ?c) (getDepth ?c)"
    using parity_fresh [OF d(1) loc(1)] parity_fresh [OF d(2) loc(2)] parity_fresh [OF d(3) loc(3)]
    by (simp add: fresh_child_sel(1) assms(2) childIndex_unat)
  show ?thesis
    unfolding cell_ok_def using 1 2 3 4 5 k
    by (simp add: fresh_child_sel assms(2))
qed

lemma fresh_child_tree_inv:
  assumes "cell_ok D og S cod node" "getDepth node = Suc l"
  shows "tree_inv D og S cod (fresh_child node l cx cy cz)"
proof -
  have "\<forall>i<8. replicate 8 (None :: OctreeNode option) ! i = None"
    by simp
  then have "node_ok D og S cod (fresh_child node l cx cy cz)"
    unfolding node_ok_def using fresh_child_cell_ok [OF assms]
    by (simp add: fresh_child_sel)
  then show ?thesis
    by (subst tree_inv_unfold) (simp add: fresh_child_sel)
qed

lemma getChild_nth:
  "length (m_child n) = 8 \<Longrightarrow> unat i < 8 \<Longrightarrow> getChild n i = m_child n ! unat i"
  by (simp add: getChild_def)

lemma next_child_child_ok:
  assumes "node_ok D og S cod node" "getDepth node = Suc l"
  shows "child_ok node (unat (childIndex l cx cy cz)) (next_child node l cx cy cz)"
proof (cases "getChild node (childIndex l cx cy cz)")
  case None
  have c: "cell_ok D og S cod node"
    using assms(1) by (simp add: node_ok_def)
  show ?thesis
    using fresh_child_loc [OF c assms(2), of cx cy cz] None
    by (simp add: child_ok_def next_child_def assms(2) fresh_child_sel(1) childIndex_bits)
next
  case (Some c)
  have "length (m_child node) = 8"
    using assms(1) by (simp add: node_ok_def cell_ok_def)
  then have "m_child node ! unat (childIndex l cx cy cz) = Some c"
    using Some childIndex_less by (simp add: getChild_nth)
  then have "child_ok node (unat (childIndex l cx cy cz)) c"
    using assms(1) childIndex_less unfolding node_ok_def by blast
  then show ?thesis
    using Some by (simp add: next_child_def)
qed

lemma next_child_tree_inv:
  assumes "tree_inv D og S cod node" "getDepth node = Suc l"
  shows "tree_inv D og S cod (next_child node l cx cy cz)"
proof (cases "getChild node (childIndex l cx cy cz)")
  case None
  have "cell_ok D og S cod node"
    using assms(1) by (subst (asm) tree_inv_unfold) (simp add: node_ok_def)
  then show ?thesis
    using None fresh_child_tree_inv [OF _ assms(2)] by (simp add: next_child_def)
next
  case (Some c)
  then have "Some c \<in> set (m_child node)"
    by (rule getChild_mem)
  then show ?thesis
    using assms(1) Some by (subst (asm) tree_inv_unfold) (simp add: next_child_def)
qed

lemma next_child_on_path:
  assumes "node_ok D og S cod node" "getDepth node = Suc l" "on_path node cx cy cz"
  shows "on_path (next_child node l cx cy cz) cx cy cz"
proof -
  let ?c = "next_child node l cx cy cz"
  have ck: "child_ok node (unat (childIndex l cx cy cz)) ?c"
    using assms(1,2) by (rule next_child_child_ok)
  then have dc: "getDepth ?c = l"
    by (simp add: child_ok_def assms(2))
  have d: "2 ^ Suc l dvd unat (getXLoc node)" "2 ^ Suc l dvd unat (getYLoc node)"
    "2 ^ Suc l dvd unat (getZLoc node)"
    using assms(1,2) by (simp_all add: node_ok_def cell_ok_def axis_ok_def)
  have p: "unat cx div 2 ^ Suc l = unat (getXLoc node) div 2 ^ Suc l"
    "unat cy div 2 ^ Suc l = unat (getYLoc node) div 2 ^ Suc l"
    "unat cz div 2 ^ Suc l = unat (getZLoc node) div 2 ^ Suc l"
    using assms(3) by (simp_all add: on_path_def assms(2))
  have "unat (getXLoc ?c) = unat (getXLoc node) + (unat cx div 2 ^ l) mod 2 * 2 ^ l"
    "unat (getYLoc ?c) = unat (getYLoc node) + (unat cy div 2 ^ l) mod 2 * 2 ^ l"
    "unat (getZLoc ?c) = unat (getZLoc node) + (unat cz div 2 ^ l) mod 2 * 2 ^ l"
    using ck by (simp_all add: child_ok_def assms(2) childIndex_bits parity_def)
  then show ?thesis
    unfolding on_path_def dc
    using path_child [OF d(1) p(1)] path_child [OF d(2) p(2)] path_child [OF d(3) p(3)]
    by simp
qed

lemma node_addPoint_tree_inv:
  assumes "tree_inv D og S cod node" "getDepth node = 0"
    and "on_path node cx cy cz \<and> cod a (cx, cy, cz) \<or> (\<forall>loc. cod a loc)"
  shows "tree_inv D og S cod (node_addPoint node a)"
proof -
  have "on_path node cx cy cz \<Longrightarrow> (cx, cy, cz) = (getXLoc node, getYLoc node, getZLoc node)"
    using assms(2) by (simp add: on_path_def word_unat_eq_iff)
  then have "cod a (getXLoc node, getYLoc node, getZLoc node)"
    using assms(3) by auto
  then have "cell_ok D og S cod node \<Longrightarrow> cell_ok D og S cod (node_addPoint node a)"
    by (simp add: cell_ok_def)
  then have "node_ok D og S cod node \<Longrightarrow> node_ok D og S cod (node_addPoint node a)"
    by (simp add: node_ok_def child_ok_def)
  then show ?thesis
    using assms(1) by (subst tree_inv_unfold, subst (asm) tree_inv_unfold) simp
qed

lemma setChild_tree_inv:
  assumes "tree_inv D og S cod node" "tree_inv D og S cod c'" "unat i < 8"
    and "child_ok node (unat i) c'"
  shows "tree_inv D og S cod (setChild node i c')"
proof -
  have n: "node_ok D og S cod node"
    and sub: "\<And>c. Some c \<in> set (m_child node) \<Longrightarrow> tree_inv D og S cod c"
    using assms(1) by (subst (asm) tree_inv_unfold; simp)+
  have len: "length (m_child node) = 8"
    using n by (simp add: node_ok_def cell_ok_def)
  have 1: "cell_ok D og S cod (setChild node i c')"
    using n by (simp add: node_ok_def cell_ok_def)
  have 2: "child_ok (setChild node i c') j c"
    if "j < 8" "m_child (setChild node i c') ! j = Some c" for j c
  proof (cases "j = unat i")
    case True
    then have "c = c'"
      using that assms(3) len by simp
    then show ?thesis
      using assms(4) True by (simp add: child_ok_def)
  next
    case False
    then have "m_child node ! j = Some c"
      using that assms(3) by simp
    then have "child_ok node j c"
      using n that(1) by (simp add: node_ok_def)
    then show ?thesis
      by (simp add: child_ok_def)
  qed
  have 3: "tree_inv D og S cod c" if "Some c \<in> set (m_child (setChild node i c'))" for c
    using that assms(2) sub by (auto dest!: set_update_subset_insert [THEN subsetD])
  show ?thesis
    by (subst tree_inv_unfold) (use 1 2 3 in \<open>auto simp: node_ok_def\<close>)
qed

lemma addPoint_loop_tree_inv:
  "tree_inv D og S cod node \<Longrightarrow> getDepth node = 0 \<or> getDepth node = Suc l \<Longrightarrow>
   on_path node cx cy cz \<and> cod a (cx, cy, cz) \<or> (\<forall>loc. cod a loc) \<Longrightarrow>
   tree_inv D og S cod (addPoint_loop node l cx cy cz a)"
proof (induction node l cx cy cz rule: addPoint_loop_induct)
  case (leaf node l cx cy cz)
  then show ?case
    by (simp add: addPoint_loop_leaf node_addPoint_tree_inv)
next
  case (step node l cx cy cz)
  let ?c = "next_child node l cx cy cz"
  have d: "getDepth node = Suc l"
    using step.hyps step.prems(2) by simp
  have n: "node_ok D og S cod node"
    using step.prems(1) by (subst (asm) tree_inv_unfold) simp
  have ck: "child_ok node (unat (childIndex l cx cy cz)) ?c"
    using n d by (rule next_child_child_ok)
  then have "getDepth ?c = l"
    by (simp add: child_ok_def d)
  then have "getDepth ?c = 0 \<or> getDepth ?c = Suc (l - 1)"
    by (cases l) simp_all
  moreover have "on_path ?c cx cy cz \<and> cod a (cx, cy, cz) \<or> (\<forall>loc. cod a loc)"
    using next_child_on_path [OF n d] step.prems(3) by blast
  ultimately have "tree_inv D og S cod (addPoint_loop ?c (l - 1) cx cy cz a)"
    using step.IH next_child_tree_inv [OF step.prems(1) d] by blast
  moreover have "child_ok node (unat (childIndex l cx cy cz)) (addPoint_loop ?c (l - 1) cx cy cz a)"
    using ck by (simp add: child_ok_def addPoint_loop_header)
  ultimately show ?case
    using step.prems(1) childIndex_less
    by (simp add: addPoint_loop_step [OF step.hyps] setChild_tree_inv)
qed

lemma tree_inv_mono:
  assumes "\<And>a loc. R a loc \<Longrightarrow> R' a loc" "tree_inv D og S R n"
  shows "tree_inv D og S R' n"
  using assms unfolding tree_inv_def node_ok_def cell_ok_def by blast

lemma tree_inv_initialize:
  "tree_inv (m_depth oc) origin sz R (m_root (initialize oc origin sz))"
proof -
  let ?r = "setLoc (new_OctreeNode origin sz (m_depth oc)) 0 0 0"
  have "\<forall>i<8. replicate 8 (None :: OctreeNode option) ! i = None"
    by simp
  then have "node_ok (m_depth oc) origin sz R ?r"
    by (simp add: node_ok_def cell_ok_def axis_ok_def setLoc_def new_OctreeNode_def)
  then have "tree_inv (m_depth oc) origin sz R ?r"
    by (subst tree_inv_unfold) (simp add: setLoc_def new_OctreeNode_def)
  then show ?thesis
    by (simp add: initialize_def)
qed

lemma addPoint_fields:
  assumes "addPoint oc pt = Inr oc'"
  shows "m_depth oc' = m_depth oc" "m_origin oc' = m_origin oc" "m_size oc' = m_size oc"
    "m_binsize oc' = m_binsize oc" "store oc' = store oc @ [pt]"
    "m_npoints oc' = m_npoints oc + 1"
  using assms by (auto simp: addPoint_def Let_def split: option.splits)

lemma addPoints_fields:
  "addPoints oc pts = Inr oc' \<Longrightarrow>
     m_depth oc' = m_depth oc \<and> m_origin oc' = m_origin oc \<and> m_size oc' = m_size oc
     \<and> m_binsize oc' = m_binsize oc \<and> store oc' = store oc @ pts
     \<and> m_npoints oc' = m_npoints oc + length pts"
  by (induction pts arbitrary: oc) (auto split: sum.splits dest: addPoint_fields)

lemma addPoint_shape:
  assumes "tree_inv D og S (\<lambda>_ _. True) (m_root oc)" "addPoint oc pt = Inr oc'"
  shows "tree_inv D og S (\<lambda>_ _. True) (m_root oc')"
proof -
  obtain cx cy cz where
    "m_root oc' = addPoint_loop (m_root oc) (getDepth (m_root oc) - 1) cx cy cz (length (store oc))"
    using assms(2) by (auto simp: addPoint_def Let_def split: option.splits)
  moreover have "getDepth (m_root oc) = 0 \<or> getDepth (m_root oc) = Suc (getDepth (m_root oc) - 1)"
    by (cases "getDepth (m_root oc)") simp_all
  ultimately show ?thesis
    using addPoint_loop_tree_inv [OF assms(1), of "getDepth (m_root oc) - 1"] by simp
qed

lemma addPoints_shape:
  "tree_inv D og S (\<lambda>_ _. True) (m_root oc) \<Longrightarrow> addPoints oc pts = Inr oc' \<Longrightarrow>
     tree_inv D og S (\<lambda>_ _. True) (m_root oc')"
  by (induction pts arbitrary: oc) (auto split: sum.splits dest: addPoint_shape)

lemma built_shape:
  assumes "addPoints (initialize oc0 origin sz) pts = Inr oc"
  shows "tree_inv (m_depth oc) (m_origin oc) (m_size oc) (\<lambda>_ _. True) (m_root oc)"
proof -
  have "m_depth oc = m_depth oc0" "m_origin oc = origin" "m_size oc = sz"
    using addPoints_fields [OF assms] by (simp_all add: initialize_def)
  then show ?thesis
    using addPoints_shape [OF tree_inv_initialize assms] by simp
qed


section \<open>The neighbour query only appends, and only samples inside the ball\<close>

lemma fold_appends:
  assumes "\<And>x ns. x \<in> set xs \<Longrightarrow> \<exists>ys. f x ns = ns @ ys \<and> (\<forall>a\<in>set ys. P a)"
  shows "\<exists>ys. fold f xs ns = ns @ ys \<and> (\<forall>a\<in>set ys. P a)"
  using assms
proof (induction xs arbitrary: ns)
  case Nil
  then show ?case by simp
next
  case (Cons x xs)
  obtain ys where ys: "f x ns = ns @ ys" "\<forall>a\<in>set ys. P a"
    using Cons.prems [of x ns] by auto
  obtain zs where zs: "fold f xs (ns @ ys) = (ns @ ys) @ zs" "\<forall>a\<in>set zs. P a"
    using Cons.IH [of "ns @ ys"] Cons.prems by auto
  show ?case
    using ys zs by (intro exI [of _ "ys @ zs"]) auto
qed

lemma explore_appends:
  "\<exists>ys. explore it st node q ns = ns @ ys \<and> (\<forall>a\<in>set ys. dist2 q (st ! a) < m_sqradius it)"
proof (induction it st node q ns rule: explore.induct)
  case (1 it st node q ns)
  show ?case
  proof (cases "getDepth node \<noteq> 0")
    case True
    have "\<exists>ys. fold (\<lambda>i ns. case getChild node i of None \<Rightarrow> ns
                               | Some c \<Rightarrow> explore it st c q ns) [0, 1, 2, 3, 4, 5, 6, 7] ns
            = ns @ ys \<and> (\<forall>a\<in>set ys. dist2 q (st ! a) < m_sqradius it)"
    proof (rule fold_appends)
      fix x :: uint and ns' :: "nat list"
      assume x: "x \<in> set [0, 1, 2, 3, 4, 5, 6, 7]"
      show "\<exists>ys. (case getChild node x of None \<Rightarrow> ns' | Some c \<Rightarrow> explore it st c q ns') = ns' @ ys
                 \<and> (\<forall>a\<in>set ys. dist2 q (st ! a) < m_sqradius it)"
        using 1 [OF True x] by (cases "getChild node x") auto
    qed
    then show ?thesis
      using True by (subst explore.simps) simp
  next
    case False
    have "\<exists>ys. fold (\<lambda>iter ns. let dist = dist2 q (st ! iter)
                        in if dist < m_sqradius it then ns @ [iter] else ns) (m_points node) ns
            = ns @ ys \<and> (\<forall>a\<in>set ys. dist2 q (st ! a) < m_sqradius it)"
      by (rule fold_appends) (auto simp: Let_def)
    then show ?thesis
      using False by (subst explore.simps) auto
  qed
qed


lemma fold_appends2:
  assumes "\<And>x nd. x \<in> set xs \<Longrightarrow>
    \<exists>ys. f x nd = (fst nd @ ys, snd nd @ map g ys) \<and> (\<forall>a\<in>set ys. P a)"
  shows "\<exists>ys. fold f xs nd = (fst nd @ ys, snd nd @ map g ys) \<and> (\<forall>a\<in>set ys. P a)"
  using assms
proof (induction xs arbitrary: nd)
  case Nil
  show ?case by (intro exI [of _ "[]"]) simp
next
  case (Cons x xs)
  obtain ys where ys: "f x nd = (fst nd @ ys, snd nd @ map g ys)" "\<forall>a\<in>set ys. P a"
    using Cons.prems [of x nd] by auto
  obtain zs where zs: "fold f xs (f x nd) = (fst (f x nd) @ zs, snd (f x nd) @ map g zs)"
    "\<forall>a\<in>set zs. P a"
    using Cons.IH [of "f x nd"] Cons.prems by auto
  show ?case
    using ys zs by (intro exI [of _ "ys @ zs"]) auto
qed

lemma explore_dist_appends:
  "\<exists>ys. explore_dist it st node q nd
          = (fst nd @ ys, snd nd @ map (\<lambda>a. dist2 q (st ! a)) ys)
        \<and> (\<forall>a\<in>set ys. dist2 q (st ! a) < m_sqradius it)"
proof (induction it st node q nd rule: explore_dist.induct)
  case (1 it st node q nd)
  show ?case
  proof (cases "getDepth node \<noteq> 0")
    case True
    have "\<exists>ys. fold (\<lambda>i nd. case getChild node i of None \<Rightarrow> nd
                               | Some c \<Rightarrow> explore_dist it st c q nd) [0, 1, 2, 3, 4, 5, 6, 7] nd
            = (fst nd @ ys, snd nd @ map (\<lambda>a. dist2 q (st ! a)) ys)
          \<and> (\<forall>a\<in>set ys. dist2 q (st ! a) < m_sqradius it)"
    proof (rule fold_appends2)
      fix x :: uint and nd' :: "nat list \<times> real list"
      assume x: "x \<in> set [0, 1, 2, 3, 4, 5, 6, 7]"
      show "\<exists>ys. (case getChild node x of None \<Rightarrow> nd' | Some c \<Rightarrow> explore_dist it st c q nd')
                   = (fst nd' @ ys, snd nd' @ map (\<lambda>a. dist2 q (st ! a)) ys)
                 \<and> (\<forall>a\<in>set ys. dist2 q (st ! a) < m_sqradius it)"
      proof (cases "getChild node x")
        case None
        then show ?thesis by (intro exI [of _ "[]"]) simp
      next
        case (Some c)
        then show ?thesis using 1 [OF True x Some] by simp
      qed
    qed
    then show ?thesis
      using True by (subst explore_dist.simps) simp
  next
    case False
    have "\<exists>ys. fold (\<lambda>iter (neighbors, distances).
                let dist = dist2 q (st ! iter)
                in if dist < m_sqradius it then (neighbors @ [iter], distances @ [dist])
                   else (neighbors, distances)) (m_points node) nd
            = (fst nd @ ys, snd nd @ map (\<lambda>a. dist2 q (st ! a)) ys)
          \<and> (\<forall>a\<in>set ys. dist2 q (st ! a) < m_sqradius it)"
      by (rule fold_appends2) (auto simp: Let_def split: prod.splits)
    moreover have "\<exists>ys. nd = (fst nd @ ys, snd nd @ map (\<lambda>a. dist2 q (st ! a)) ys)
          \<and> (\<forall>a\<in>set ys. dist2 q (st ! a) < m_sqradius it)"
      by (intro exI [of _ "[]"]) simp
    ultimately show ?thesis
      using False by (subst explore_dist.simps) (cases "getNpts node = 0"; simp)
  qed
qed

lemma getNeighbors_node_appends:
  "\<exists>ys. getNeighbors_node oc it q qn ns = ns @ ys
        \<and> (\<forall>a\<in>set ys. dist2 q (store oc ! a) < m_sqradius it)"
  unfolding getNeighbors_node_def by (rule fold_appends) (rule explore_appends)

lemma getNeighbors_node_dist_appends:
  "\<exists>ys. getNeighbors_node_dist oc it q qn nd
          = (fst nd @ ys, snd nd @ map (\<lambda>a. dist2 q (store oc ! a)) ys)
        \<and> (\<forall>a\<in>set ys. dist2 q (store oc ! a) < m_sqradius it)"
  unfolding getNeighbors_node_dist_def by (rule fold_appends2) (rule explore_dist_appends)

text \<open>Every way to make or change an iterator keeps the squared radius the square of the radius.\<close>

lemma new_OctreeIterator_sq:
  "m_sqradius (new_OctreeIterator oc) = m_radius (new_OctreeIterator oc) * m_radius (new_OctreeIterator oc)"
  by (simp add: new_OctreeIterator_def Let_def)

lemma it_setDepth_sq:
  "m_sqradius it = m_radius it * m_radius it \<Longrightarrow> it_setDepth oc it depth = (b, it') \<Longrightarrow>
     m_sqradius it' = m_radius it' * m_radius it'"
  by (auto simp: it_setDepth_def Let_def split: if_splits)

lemma setR_sq:
  "m_sqradius it = m_radius it * m_radius it \<Longrightarrow> setR oc it radius = Inr (b, it') \<Longrightarrow>
     m_sqradius it' = m_radius it' * m_radius it'"
  by (auto simp: setR_def Let_def split: if_splits option.splits)

section \<open>The radius and the active depth\<close>

lemma floor_log2_eqI:
  assumes "2 powr (of_int m) \<le> v" "v < 2 powr (of_int m + 1)"
  shows "floor_log2 v = Some m"
proof -
  have "0 < (2::real) powr (of_int m)"
    by simp
  then have v: "0 < v"
    using assms(1) by (rule less_le_trans)
  have "of_int m \<le> log 2 v"
    using assms(1) v by (simp add: le_log_iff)
  moreover have "log 2 v < of_int m + 1"
    using assms(2) v by (simp add: log_less_iff)
  ultimately have "\<lfloor>log 2 v\<rfloor> = m"
    by (intro floor_unique) simp_all
  then show ?thesis
    using v by (simp add: floor_log2_def)
qed

lemma floor_log2_8: "floor_log2 8 = Some 3"
  by (rule floor_log2_eqI) simp_all

lemma floor_log2_c1: "floor_log2 (20/63) = Some (-2)"
  by (rule floor_log2_eqI) (simp_all add: powr_minus)

lemma floor_log2_neg: "v \<le> 0 \<Longrightarrow> floor_log2 v = None"
  by (simp add: floor_log2_def)

lemma unat_word_of_int:
  "0 \<le> k \<Longrightarrow> k < 2 ^ 32 \<Longrightarrow> unat (word_of_int k :: uint) = nat k"
  by (simp add: unsigned_of_int take_bit_int_eq_self)

lemma to_uint_of_int:
  "0 \<le> k \<Longrightarrow> k < 2 ^ 32 \<Longrightarrow> map_option unat (to_uint (of_int k)) = Some (nat k)"
  by (simp add: to_uint_def unat_word_of_int)

lemma setR_reject: "\<not> radius < m_size oc \<Longrightarrow> setR oc it radius = Inr (False, it)"
  by (simp add: setR_def)

lemma setR_accept:
  assumes "0 < radius" "radius < m_size oc"
    and "\<lfloor>log 2 (m_size oc / (2 * radius))\<rfloor> \<le> int (m_depth oc)"
    and "int (m_depth oc) - \<lfloor>log 2 (m_size oc / (2 * radius))\<rfloor> < 2 ^ 32"
  shows "setR oc it radius =
    Inr (True, it\<lparr>m_radius := radius, m_sqradius := radius * radius,
                    m_activeDepth := nat (int (m_depth oc) - \<lfloor>log 2 (m_size oc / (2 * radius))\<rfloor>)\<rparr>)"
proof -
  let ?f = "\<lfloor>log 2 (m_size oc / (2 * radius))\<rfloor>"
  have "real (m_depth oc) - real_of_int ?f = of_int (int (m_depth oc) - ?f)"
    by simp
  then have "map_option unat (to_uint (real (m_depth oc) - real_of_int ?f))
      = Some (nat (int (m_depth oc) - ?f))"
    using to_uint_of_int [of "int (m_depth oc) - ?f"] assms(3,4) by simp
  moreover have "floor_log2 (m_size oc / (2 * radius)) = Some ?f"
    using assms(1,2) by (simp add: floor_log2_def)
  ultimately show ?thesis
    using assms(1,2) by (auto simp: setR_def depth_for_def)
qed


lemma setR_not_reject: "radius < m_size oc \<Longrightarrow> setR oc it radius \<noteq> Inr (False, it')"
  by (simp add: setR_def Let_def split: option.splits)

section \<open>The samples of an octree and their codes\<close>

text \<open>
  \<open>addrs n\<close> are the samples that \<^verbatim>\<open>explore\<close> visits below \<open>n\<close>: those of the leaves
  (nodes of depth 0) below it.
\<close>

fun addrs :: "OctreeNode \<Rightarrow> nat set" where
  "addrs n =
     (if getDepth n \<noteq> 0 then (\<Union>c \<in> {c. Some c \<in> set (m_child n)}. addrs c)
      else set (m_points n))"

declare addrs.simps [simp del]

lemma addrs_leaf: "getDepth n = 0 \<Longrightarrow> addrs n = set (m_points n)"
  by (subst addrs.simps) simp

lemma addrs_inner:
  "getDepth n \<noteq> 0 \<Longrightarrow> addrs n = (\<Union>c \<in> {c. Some c \<in> set (m_child n)}. addrs c)"
  by (subst addrs.simps) simp

lemma node_induct [case_names node]:
  assumes "\<And>n. (\<And>c. Some c \<in> set (m_child n) \<Longrightarrow> P c) \<Longrightarrow> P n"
  shows "P n"
proof (induction n rule: measure_induct_rule [where f = size])
  case (less n)
  show ?case
    by (rule assms) (rule less, rule child_size)
qed

lemma addrs_addPoint_loop:
  "tree_inv D og S R node \<Longrightarrow> getDepth node = 0 \<or> getDepth node = Suc l \<Longrightarrow>
   a \<in> addrs (addPoint_loop node l cx cy cz a)
   \<and> addrs node \<subseteq> addrs (addPoint_loop node l cx cy cz a)"
proof (induction node l cx cy cz rule: addPoint_loop_induct)
  case (leaf node l cx cy cz)
  then show ?case
    by (auto simp: addPoint_loop_leaf addrs_leaf)
next
  case (step node l cx cy cz)
  let ?i = "childIndex l cx cy cz"
  let ?c = "next_child node l cx cy cz"
  let ?c' = "addPoint_loop ?c (l - 1) cx cy cz a"
  let ?n' = "setChild node ?i ?c'"
  have d: "getDepth ?n' \<noteq> 0"
    using step.hyps by simp
  have dn: "getDepth node = Suc l"
    using step.hyps step.prems(2) by simp
  have n: "node_ok D og S R node"
    using step.prems(1) by (subst (asm) tree_inv_unfold) simp
  have "getDepth ?c = l"
    using next_child_child_ok [OF n dn, of cx cy cz] by (simp add: child_ok_def dn)
  then have "getDepth ?c = 0 \<or> getDepth ?c = Suc (l - 1)"
    by (cases l) simp_all
  then have IH: "a \<in> addrs ?c' \<and> addrs ?c \<subseteq> addrs ?c'"
    using step.IH next_child_tree_inv [OF step.prems(1) dn] by blast
  have "length (m_child node) = 8"
    using n by (simp add: node_ok_def cell_ok_def)
  then have True: "unat ?i mod 8 < length (m_child node)"
    by simp
  show ?case
  proof -
    from True have in': "Some ?c' \<in> set (m_child ?n')"
      by (simp add: set_update_memI)
    then have 1: "addrs ?c' \<subseteq> addrs ?n'"
      unfolding addrs_inner [OF d] by blast
    have 2: "addrs c \<subseteq> addrs ?n'" if c: "Some c \<in> set (m_child node)" for c
    proof -
      obtain j where j: "j < length (m_child node)" "m_child node ! j = Some c"
        using c by (auto simp: in_set_conv_nth)
      show ?thesis
      proof (cases "j = unat ?i mod 8")
        case True
        then have "getChild node ?i = Some c"
          using j by (simp add: getChild_def)
        then have "?c = c"
          by (simp add: next_child_def)
        then show ?thesis
          using IH 1 by auto
      next
        case False
        then have "m_child ?n' ! j = Some c" "j < length (m_child ?n')"
          using j by simp_all
        then have "Some c \<in> set (m_child ?n')"
          by (metis nth_mem)
        then show ?thesis
          unfolding addrs_inner [OF d] by blast
      qed
    qed
    have "addrs node \<subseteq> addrs ?n'"
      unfolding addrs_inner [OF step.hyps] using 2 by blast
    then show ?thesis
      using 1 IH by (auto simp: addPoint_loop_step [OF step.hyps])
  qed
qed

subsection \<open>the codes of the samples inside the bounding cube\<close>

definition inside_cube :: "Octree \<Rightarrow> 'a Point_scheme \<Rightarrow> bool" where
  "inside_cube oc p \<longleftrightarrow>
     m_x (m_origin oc) \<le> m_x p \<and> m_x p < m_x (m_origin oc) + m_size oc
     \<and> m_y (m_origin oc) \<le> m_y p \<and> m_y p < m_y (m_origin oc) + m_size oc
     \<and> m_z (m_origin oc) \<le> m_z p \<and> m_z p < m_z (m_origin oc) + m_size oc"

definition locCodes :: "Octree \<Rightarrow> 'a Point_scheme \<Rightarrow> (uint \<times> uint \<times> uint) option" where
  "locCodes oc p =
     (case (locCode oc (m_x p) (m_x (m_origin oc)),
            locCode oc (m_y p) (m_y (m_origin oc)),
            locCode oc (m_z p) (m_z (m_origin oc))) of
        (Some codx, Some cody, Some codz) \<Rightarrow> Some (codx, cody, codz)
      | _ \<Rightarrow> None)"

definition code_rel :: "Octree \<Rightarrow> nat \<Rightarrow> uint \<times> uint \<times> uint \<Rightarrow> bool" where
  "code_rel oc a loc \<longleftrightarrow> a < length (store oc) \<and> locCodes oc (store oc ! a) = Some loc"

text \<open>The code of a coordinate, as a number: the index of the leaf-sized slab it is in.\<close>

definition slab :: "Octree \<Rightarrow> real \<Rightarrow> real \<Rightarrow> int" where
  "slab oc v og = \<lfloor>(v - og) / (m_size oc / 2 ^ m_depth oc)\<rfloor>"

lemma unat_binsize:
  assumes "m_binsize oc = of_nat (pow2 (m_depth oc))" "m_depth oc < 32"
  shows "unat (m_binsize oc) = 2 ^ m_depth oc"
  using unat_2p [OF assms(2)] by (simp add: assms(1) pow2_def)

lemma locCode_inside:
  assumes "0 < m_size oc" "m_binsize oc = of_nat (pow2 (m_depth oc))" "m_depth oc < 32"
    and "og \<le> v" "v < og + m_size oc"
  shows "\<exists>c. locCode oc v og = Some c \<and> unat c < 2 ^ m_depth oc \<and> int (unat c) = slab oc v og"
proof -
  define x where "x = (v - og) / m_size oc * real (unat (m_binsize oc))"
  have b: "real (unat (m_binsize oc)) = 2 ^ m_depth oc"
    using unat_binsize [OF assms(2,3)] by simp
  have x: "x = (v - og) / (m_size oc / 2 ^ m_depth oc)"
    unfolding x_def b by simp
  have t: "0 \<le> (v - og) / m_size oc" "(v - og) / m_size oc < 1"
    using assms(1,4,5) by simp_all
  have x0: "0 \<le> x"
    unfolding x_def b using t(1) by (intro mult_nonneg_nonneg) simp_all
  have "(v - og) / m_size oc * 2 ^ m_depth oc < 1 * 2 ^ m_depth oc"
    using t(2) by (intro mult_strict_right_mono) simp_all
  then have x1: "x < 2 ^ m_depth oc"
    unfolding x_def b by simp
  have f0: "0 \<le> \<lfloor>x\<rfloor>"
    using x0 by simp
  have f1: "\<lfloor>x\<rfloor> < 2 ^ m_depth oc"
    using x1 by (simp add: floor_less_iff)
  have "(2::int) ^ m_depth oc < 2 ^ 32"
    using assms(3) by (intro power_strict_increasing) simp_all
  with f1 have f2: "\<lfloor>x\<rfloor> < 2 ^ 32"
    by (rule less_trans)
  have "to_uint x = Some (word_of_int \<lfloor>x\<rfloor>)"
    using x0 f0 f2 by (simp add: to_uint_def Let_def)
  then have "locCode oc v og = Some (word_of_int \<lfloor>x\<rfloor>)"
    using assms(1) by (simp add: locCode_def x_def)
  moreover have u: "unat (word_of_int \<lfloor>x\<rfloor> :: uint) = nat \<lfloor>x\<rfloor>"
    using f0 f2 by (rule unat_word_of_int)
  have "nat \<lfloor>x\<rfloor> < 2 ^ m_depth oc"
    using f0 f1 by (simp add: nat_less_iff)
  then have "unat (word_of_int \<lfloor>x\<rfloor> :: uint) < 2 ^ m_depth oc"
    unfolding u .
  moreover have "int (nat \<lfloor>x\<rfloor>) = slab oc v og"
    using f0 by (simp add: slab_def x)
  then have "int (unat (word_of_int \<lfloor>x\<rfloor> :: uint)) = slab oc v og"
    unfolding u .
  ultimately show ?thesis
    by blast
qed

lemma code_expr: "(v - og) * (1 / S * B) = (v - og) / S * (B :: real)"
  by simp

lemma computeCode_locCodes: "computeCode oc p = locCodes oc p"
  unfolding computeCode_def locCodes_def locCode_def Let_def code_expr
  by (simp split: option.splits)

lemma addPoint_locCodes:
  "addPoint oc pt =
     (case locCodes oc pt of
        None \<Rightarrow> Inl Undefined_conversion
      | Some (cx, cy, cz) \<Rightarrow>
          Inr (oc\<lparr>m_root := addPoint_loop (m_root oc) (getDepth (m_root oc) - 1) cx cy cz
                                 (length (store oc)),
                     store := store oc @ [pt], m_npoints := m_npoints oc + 1\<rparr>))"
  by (simp add: addPoint_def locCodes_def Let_def split: option.splits)

lemma locCodes_inside:
  assumes "0 < m_size oc" "m_binsize oc = of_nat (pow2 (m_depth oc))" "m_depth oc < 32"
    and "inside_cube oc p"
  shows "\<exists>cx cy cz. locCodes oc p = Some (cx, cy, cz)
    \<and> unat cx < 2 ^ m_depth oc \<and> unat cy < 2 ^ m_depth oc \<and> unat cz < 2 ^ m_depth oc
    \<and> int (unat cx) = slab oc (m_x p) (m_x (m_origin oc))
    \<and> int (unat cy) = slab oc (m_y p) (m_y (m_origin oc))
    \<and> int (unat cz) = slab oc (m_z p) (m_z (m_origin oc))"
proof -
  note l = locCode_inside [OF assms(1,2,3)]
  obtain cx where "locCode oc (m_x p) (m_x (m_origin oc)) = Some cx" "unat cx < 2 ^ m_depth oc"
    "int (unat cx) = slab oc (m_x p) (m_x (m_origin oc))"
    using l [of "m_x (m_origin oc)" "m_x p"] assms(4) by (auto simp: inside_cube_def)
  moreover obtain cy where "locCode oc (m_y p) (m_y (m_origin oc)) = Some cy" "unat cy < 2 ^ m_depth oc"
    "int (unat cy) = slab oc (m_y p) (m_y (m_origin oc))"
    using l [of "m_y (m_origin oc)" "m_y p"] assms(4) by (auto simp: inside_cube_def)
  moreover obtain cz where "locCode oc (m_z p) (m_z (m_origin oc)) = Some cz" "unat cz < 2 ^ m_depth oc"
    "int (unat cz) = slab oc (m_z p) (m_z (m_origin oc))"
    using l [of "m_z (m_origin oc)" "m_z p"] assms(4) by (auto simp: inside_cube_def)
  ultimately show ?thesis
    by (simp add: locCodes_def)
qed

lemma locCodes_cong:
  assumes "m_size oc' = m_size oc" "m_binsize oc' = m_binsize oc" "m_origin oc' = m_origin oc"
  shows "locCodes oc' p = locCodes oc p"
  unfolding locCodes_def locCode_def assms by (rule refl)

subsection \<open>the invariant of an octree and its samples\<close>

definition octree_inv :: "Octree \<Rightarrow> bool" where
  "octree_inv oc \<longleftrightarrow>
     m_depth oc < 32 \<and> 0 < m_size oc \<and> m_binsize oc = of_nat (pow2 (m_depth oc))
     \<and> tree_inv (m_depth oc) (m_origin oc) (m_size oc) (code_rel oc) (m_root oc)
     \<and> getDepth (m_root oc) = m_depth oc
     \<and> getXLoc (m_root oc) = 0 \<and> getYLoc (m_root oc) = 0 \<and> getZLoc (m_root oc) = 0
     \<and> (\<forall>a < length (store oc). inside_cube oc (store oc ! a) \<and> a \<in> addrs (m_root oc))"

lemma octree_inv_initialize:
  assumes "m_depth oc0 < 32" "0 < sz" "m_binsize oc0 = of_nat (pow2 (m_depth oc0))" "store oc0 = []"
  shows "octree_inv (initialize oc0 origin sz)"
  unfolding octree_inv_def using assms tree_inv_initialize [of oc0 origin sz]
  by (simp add: initialize_def setLoc_def new_OctreeNode_def)

lemma octree_inv_addPoint:
  assumes "octree_inv oc" "inside_cube oc pt"
  shows "\<exists>oc'. addPoint oc pt = Inr oc' \<and> octree_inv oc'"
proof -
  let ?D = "m_depth oc"
  have D: "?D < 32" and S: "0 < m_size oc" and B: "m_binsize oc = of_nat (pow2 ?D)"
    and T: "tree_inv ?D (m_origin oc) (m_size oc) (code_rel oc) (m_root oc)"
    and R: "getDepth (m_root oc) = ?D" "getXLoc (m_root oc) = 0" "getYLoc (m_root oc) = 0"
      "getZLoc (m_root oc) = 0"
    and A: "\<And>a. a < length (store oc) \<Longrightarrow> inside_cube oc (store oc ! a) \<and> a \<in> addrs (m_root oc)"
    using assms(1) by (simp_all add: octree_inv_def)
  obtain cx cy cz where c: "locCodes oc pt = Some (cx, cy, cz)"
    and lt: "unat cx < 2 ^ ?D" "unat cy < 2 ^ ?D" "unat cz < 2 ^ ?D"
    using locCodes_inside [OF S B D assms(2)] by blast
  define a where "a = length (store oc)"
  define root' where "root' = addPoint_loop (m_root oc) (getDepth (m_root oc) - 1) cx cy cz a"
  define oc' where "oc' = oc\<lparr>m_root := root', store := store oc @ [pt],
    m_npoints := m_npoints oc + 1\<rparr>"
  have add: "addPoint oc pt = Inr oc'"
    by (simp add: addPoint_locCodes c oc'_def root'_def a_def)
  have codes: "locCodes oc' p = locCodes oc p" for p :: Sample
    by (rule locCodes_cong) (simp_all add: oc'_def)
  have inside: "inside_cube oc' p = inside_cube oc p" for p :: Sample
    by (simp add: inside_cube_def oc'_def)
  have mono: "code_rel oc' b loc" if "code_rel oc b loc" for b loc
    using that by (simp add: code_rel_def codes) (simp add: oc'_def nth_append)
  have T': "tree_inv ?D (m_origin oc) (m_size oc) (code_rel oc') (m_root oc)"
    using mono T by (rule tree_inv_mono)
  have dl: "getDepth (m_root oc) = 0 \<or> getDepth (m_root oc) = Suc (getDepth (m_root oc) - 1)"
    by (cases "getDepth (m_root oc)") simp_all
  have "on_path (m_root oc) cx cy cz"
    using lt by (simp add: on_path_def R)
  moreover have st: "store oc' ! a = pt" "a < length (store oc')"
    by (simp_all add: oc'_def a_def)
  have "code_rel oc' a (cx, cy, cz)"
    unfolding code_rel_def st(1) codes using c st(2) by simp
  ultimately have T'': "tree_inv ?D (m_origin oc) (m_size oc) (code_rel oc') root'"
    unfolding root'_def using addPoint_loop_tree_inv [OF T' dl] by blast
  have ad: "a \<in> addrs root'" "addrs (m_root oc) \<subseteq> addrs root'"
    unfolding root'_def using addrs_addPoint_loop [OF T' dl] by blast+
  have all: "inside_cube oc' (store oc' ! b) \<and> b \<in> addrs (m_root oc')"
    if "b < length (store oc')" for b
  proof (cases "b = a")
    case True
    then show ?thesis
      using ad(1) assms(2) by (simp add: inside) (simp add: oc'_def a_def)
  next
    case False
    then have "b < length (store oc)"
      using that by (simp add: oc'_def a_def)
    then show ?thesis
      using A [of b] ad(2) by (simp add: inside) (auto simp: oc'_def nth_append)
  qed
  have "octree_inv oc'"
    unfolding octree_inv_def using D S B T'' R all
    by (simp add: oc'_def root'_def addPoint_loop_header)
  with add show ?thesis by blast
qed

lemma octree_inv_addPoints:
  "octree_inv oc \<Longrightarrow> \<forall>p \<in> set pts. inside_cube oc p \<Longrightarrow>
     \<exists>oc'. addPoints oc pts = Inr oc' \<and> octree_inv oc'"
proof (induction pts arbitrary: oc)
  case Nil
  then show ?case by simp
next
  case (Cons pt pts)
  obtain oc1 where 1: "addPoint oc pt = Inr oc1" "octree_inv oc1"
    using octree_inv_addPoint [OF Cons.prems(1)] Cons.prems(2) by auto
  have "inside_cube oc1 p = inside_cube oc p" for p :: Sample
    using addPoint_fields [OF 1(1)] by (simp add: inside_cube_def)
  then show ?case
    using Cons.IH [OF 1(2)] Cons.prems(2) 1(1) by simp
qed

text \<open>An octree as the program builds it: depth set, initialised, samples added.\<close>

definition build :: "nat \<Rightarrow> Point \<Rightarrow> real \<Rightarrow> Sample list \<Rightarrow> fault + Octree" where
  "build D origin sz pts = addPoints (initialize (setDepth new_Octree D) origin sz) pts"

definition in_box :: "Point \<Rightarrow> real \<Rightarrow> 'a Point_scheme \<Rightarrow> bool" where
  "in_box origin sz p \<longleftrightarrow>
     m_x origin \<le> m_x p \<and> m_x p < m_x origin + sz
     \<and> m_y origin \<le> m_y p \<and> m_y p < m_y origin + sz
     \<and> m_z origin \<le> m_z p \<and> m_z p < m_z origin + sz"

lemma build_inv:
  assumes "D < 32" "0 < sz" "\<forall>p \<in> set pts. in_box origin sz p"
  shows "\<exists>oc. build D origin sz pts = Inr oc \<and> octree_inv oc \<and> store oc = pts
    \<and> m_depth oc = D \<and> m_origin oc = origin \<and> m_size oc = sz"
proof -
  let ?oc0 = "initialize (setDepth new_Octree D) origin sz"
  have 0: "octree_inv ?oc0"
    using assms(1,2) by (intro octree_inv_initialize) (simp_all add: setDepth_def new_Octree_def)
  have "\<forall>p \<in> set pts. inside_cube ?oc0 p"
    using assms(3) by (simp add: inside_cube_def in_box_def initialize_def)
  then obtain oc where oc: "addPoints ?oc0 pts = Inr oc" "octree_inv oc"
    using octree_inv_addPoints [OF 0] by blast
  then show ?thesis
    using addPoints_fields [OF oc(1)]
    by (simp add: build_def initialize_def setDepth_def new_Octree_def)
qed

subsection \<open>following the codes of a stored sample\<close>

lemma div_pow_mono:
  assumes "(a::nat) div 2 ^ k = b div 2 ^ k" "k \<le> l"
  shows "a div 2 ^ l = b div 2 ^ l"
proof -
  have "a div 2 ^ l = a div 2 ^ k div 2 ^ (l - k)" for a :: nat
    using assms(2) by (simp add: div_mult2_eq [symmetric] power_add [symmetric])
  then show ?thesis
    using assms(1) by simp
qed

lemma on_path_axis_parent:
  assumes "2 ^ Suc l dvd (P::nat)" "b \<le> 1" "c div 2 ^ l = (P + b * 2 ^ l) div 2 ^ l"
  shows "c div 2 ^ Suc l = P div 2 ^ Suc l" and "(c div 2 ^ l) mod 2 = b"
proof -
  obtain m where P: "P = 2 ^ Suc l * m"
    using assms(1) by (auto elim: dvdE)
  have "P + b * 2 ^ l = (2 * m + b) * 2 ^ l"
    by (simp add: P algebra_simps)
  then have q: "c div 2 ^ l = 2 * m + b"
    using assms(3) by simp
  have "c div 2 ^ Suc l = c div 2 ^ l div 2"
    by (simp add: div_mult2_eq [symmetric] mult.commute)
  also have "\<dots> = m"
    using q assms(2) by simp
  finally show "c div 2 ^ Suc l = P div 2 ^ Suc l"
    by (simp add: P)
  show "(c div 2 ^ l) mod 2 = b"
    using q assms(2) by simp
qed

lemma bits_of_index:
  assumes "(j::nat) < 8"
  shows "j = 4 * ((j div 4) mod 2) + 2 * ((j div 2) mod 2) + j mod 2"
proof -
  consider "j = 0" | "j = 1" | "j = 2" | "j = 3" | "j = 4" | "j = 5" | "j = 6" | "j = 7"
    using assms by linarith
  then show ?thesis
    by cases simp_all
qed

lemma child_on_path:
  assumes "cell_ok D og S R n" "child_ok n j c" "on_path c cx cy cz"
  shows "on_path n cx cy cz"
    and "parity cx (getDepth c) = (j div 4) mod 2"
    and "parity cy (getDepth c) = (j div 2) mod 2"
    and "parity cz (getDepth c) = j mod 2"
proof -
  define l where "l = getDepth c"
  have dn: "getDepth n = Suc l"
    using assms(2) by (simp add: child_ok_def l_def)
  have d: "2 ^ Suc l dvd unat (getXLoc n)" "2 ^ Suc l dvd unat (getYLoc n)"
    "2 ^ Suc l dvd unat (getZLoc n)"
    using assms(1) by (simp_all add: cell_ok_def axis_ok_def dn)
  have p: "unat cx div 2 ^ l = (unat (getXLoc n) + (j div 4) mod 2 * 2 ^ l) div 2 ^ l"
    "unat cy div 2 ^ l = (unat (getYLoc n) + (j div 2) mod 2 * 2 ^ l) div 2 ^ l"
    "unat cz div 2 ^ l = (unat (getZLoc n) + j mod 2 * 2 ^ l) div 2 ^ l"
    using assms(2,3) by (simp_all add: child_ok_def on_path_def l_def)
  have b: "(j div 4) mod 2 \<le> 1" "(j div 2) mod 2 \<le> 1" "j mod 2 \<le> 1"
    by simp_all
  show "on_path n cx cy cz"
    unfolding on_path_def dn
    using on_path_axis_parent(1) [OF d(1) b(1) p(1)] on_path_axis_parent(1) [OF d(2) b(2) p(2)]
      on_path_axis_parent(1) [OF d(3) b(3) p(3)] by simp
  show "parity cx (getDepth c) = (j div 4) mod 2" "parity cy (getDepth c) = (j div 2) mod 2"
    "parity cz (getDepth c) = j mod 2"
    unfolding parity_def l_def [symmetric]
    using on_path_axis_parent(2) [OF d(1) b(1) p(1)] on_path_axis_parent(2) [OF d(2) b(2) p(2)]
      on_path_axis_parent(2) [OF d(3) b(3) p(3)] by simp_all
qed

lemma child_nth:
  assumes "node_ok D og S R n" "Some c \<in> set (m_child n)"
  obtains j where "j < 8" "m_child n ! j = Some c" "child_ok n j c"
proof -
  have len: "length (m_child n) = 8"
    using assms(1) by (simp add: node_ok_def cell_ok_def)
  obtain j where j: "j < 8" "m_child n ! j = Some c"
    using assms(2) len by (auto simp: in_set_conv_nth)
  then have "child_ok n j c"
    using assms(1) by (simp add: node_ok_def)
  with j show ?thesis
    by (rule that)
qed

lemma addrs_on_path:
  "tree_inv D og S R n \<Longrightarrow> a \<in> addrs n \<Longrightarrow>
     \<exists>cx cy cz. R a (cx, cy, cz) \<and> on_path n cx cy cz"
proof (induction n rule: node_induct)
  case (node n)
  have n: "node_ok D og S R n"
    using node.prems(1) by (subst (asm) tree_inv_unfold) simp
  show ?case
  proof (cases "getDepth n = 0")
    case True
    then have "R a (getXLoc n, getYLoc n, getZLoc n)"
      using n node.prems(2) by (simp add: node_ok_def cell_ok_def addrs_leaf)
    then show ?thesis
      by (auto simp: on_path_def)
  next
    case False
    then obtain c where c: "Some c \<in> set (m_child n)" "a \<in> addrs c"
      using node.prems(2) by (auto simp: addrs_inner)
    have "tree_inv D og S R c"
      using node.prems(1) c(1) by (subst (asm) tree_inv_unfold) simp
    then obtain cx cy cz where r: "R a (cx, cy, cz)" "on_path c cx cy cz"
      using node.IH [OF c(1) _ c(2)] by blast
    obtain j where "child_ok n j c"
      using n c(1) by (rule child_nth)
    then have "on_path n cx cy cz"
      using child_on_path(1) n r(2) unfolding node_ok_def by blast
    with r(1) show ?thesis by blast
  qed
qed

lemma traverseToLevel_stop:
  "\<not> k < getDepth node \<Longrightarrow> traverseToLevel node l x y z k = node"
  by (subst traverseToLevel.simps) simp

lemma traverseToLevel_step:
  "k < getDepth node \<Longrightarrow>
     traverseToLevel node l x y z k =
       (case getChild node (childIndex l x y z) of
          Some c \<Rightarrow> traverseToLevel c (l - 1) x y z k
        | None \<Rightarrow> node)"
  by (subst traverseToLevel.simps) (simp add: childIndex_def Let_def)

lemma traverse_finds:
  assumes fun_R: "\<And>b loc loc'. R b loc \<Longrightarrow> R b loc' \<Longrightarrow> loc = loc'"
    and u: "R a (ux, uy, uz)"
    and x: "unat x div 2 ^ k = unat ux div 2 ^ k" "unat y div 2 ^ k = unat uy div 2 ^ k"
      "unat z div 2 ^ k = unat uz div 2 ^ k"
  shows "tree_inv D og S R n \<Longrightarrow> a \<in> addrs n \<Longrightarrow> k \<le> getDepth n \<Longrightarrow>
     getDepth n = 0 \<or> getDepth n = Suc l \<Longrightarrow>
     getDepth (traverseToLevel n l x y z k) = k \<and> a \<in> addrs (traverseToLevel n l x y z k)"
proof (induction n arbitrary: l rule: node_induct)
  case (node n)
  have n: "node_ok D og S R n"
    using node.prems(1) by (subst (asm) tree_inv_unfold) simp
  show ?case
  proof (cases "k < getDepth n")
    case False
    then show ?thesis
      using node.prems(2,3) by (simp add: traverseToLevel_stop)
  next
    case True
    then have dn: "getDepth n = Suc l" "getDepth n \<noteq> 0"
      using node.prems(4) by simp_all
    obtain c where c: "Some c \<in> set (m_child n)" "a \<in> addrs c"
      using node.prems(2) dn(2) by (auto simp: addrs_inner)
    have tc: "tree_inv D og S R c"
      using node.prems(1) c(1) by (subst (asm) tree_inv_unfold) simp
    obtain j where j: "j < 8" "m_child n ! j = Some c" "child_ok n j c"
      using n c(1) by (rule child_nth)
    have dc: "getDepth c = l"
      using j(3) by (simp add: child_ok_def dn)
    obtain cx cy cz where "R a (cx, cy, cz)" "on_path c cx cy cz"
      using addrs_on_path [OF tc c(2)] by blast
    then have "on_path c ux uy uz"
      using fun_R [OF u] by blast
    then have pu: "parity ux l = (j div 4) mod 2" "parity uy l = (j div 2) mod 2"
      "parity uz l = j mod 2"
      using child_on_path(2,3,4) [of D og S R n j c ux uy uz] n j(3)
      unfolding node_ok_def dc by blast+
    have kl: "k \<le> l"
      using True dn by simp
    have "parity x l = parity ux l" "parity y l = parity uy l" "parity z l = parity uz l"
      unfolding parity_def using div_pow_mono [OF x(1) kl] div_pow_mono [OF x(2) kl]
        div_pow_mono [OF x(3) kl] by simp_all
    then have "unat (childIndex l x y z) = j"
      using pu bits_of_index [OF j(1)] by (simp add: childIndex_unat)
    moreover have "length (m_child n) = 8"
      using n by (simp add: node_ok_def cell_ok_def)
    ultimately have "getChild n (childIndex l x y z) = Some c"
      using j(1,2) by (simp add: getChild_nth)
    then have t: "traverseToLevel n l x y z k = traverseToLevel c (l - 1) x y z k"
      using True by (simp add: traverseToLevel_step)
    have "getDepth c = 0 \<or> getDepth c = Suc (l - 1)"
      using dc by (cases l) simp_all
    then show ?thesis
      unfolding t using node.IH [OF c(1) tc c(2)] kl dc by simp
  qed
qed

lemma code_rel_fun: "code_rel oc b loc \<Longrightarrow> code_rel oc b loc' \<Longrightarrow> loc = loc'"
  by (simp add: code_rel_def)

lemma octree_inv_code:
  assumes "octree_inv oc" "a < length (store oc)"
  obtains cx cy cz where "code_rel oc a (cx, cy, cz)" "locCodes oc (store oc ! a) = Some (cx, cy, cz)"
    "unat cx < 2 ^ m_depth oc" "unat cy < 2 ^ m_depth oc" "unat cz < 2 ^ m_depth oc"
    "int (unat cx) = slab oc (m_x (store oc ! a)) (m_x (m_origin oc))"
    "int (unat cy) = slab oc (m_y (store oc ! a)) (m_y (m_origin oc))"
    "int (unat cz) = slab oc (m_z (store oc ! a)) (m_z (m_origin oc))"
proof -
  have "0 < m_size oc" "m_binsize oc = of_nat (pow2 (m_depth oc))" "m_depth oc < 32"
    "inside_cube oc (store oc ! a)"
    using assms by (simp_all add: octree_inv_def)
  then obtain cx cy cz where c: "locCodes oc (store oc ! a) = Some (cx, cy, cz)"
    "unat cx < 2 ^ m_depth oc" "unat cy < 2 ^ m_depth oc" "unat cz < 2 ^ m_depth oc"
    "int (unat cx) = slab oc (m_x (store oc ! a)) (m_x (m_origin oc))"
    "int (unat cy) = slab oc (m_y (store oc ! a)) (m_y (m_origin oc))"
    "int (unat cz) = slab oc (m_z (store oc ! a)) (m_z (m_origin oc))"
    using locCodes_inside [of oc "store oc ! a"] by blast
  moreover have "code_rel oc a (cx, cy, cz)"
    using c(1) assms(2) by (simp add: code_rel_def)
  ultimately show ?thesis
    using that by blast
qed

lemma traverseFromRoot_finds:
  assumes "octree_inv oc" "a < length (store oc)" "code_rel oc a (ux, uy, uz)" "k \<le> m_depth oc"
    and "unat x div 2 ^ k = unat ux div 2 ^ k" "unat y div 2 ^ k = unat uy div 2 ^ k"
      "unat z div 2 ^ k = unat uz div 2 ^ k"
  shows "getDepth (traverseFromRoot oc x y z k) = k \<and> a \<in> addrs (traverseFromRoot oc x y z k)"
proof -
  have T: "tree_inv (m_depth oc) (m_origin oc) (m_size oc) (code_rel oc) (m_root oc)"
    and R: "getDepth (m_root oc) = m_depth oc" and A: "a \<in> addrs (m_root oc)"
    using assms(1,2) by (simp_all add: octree_inv_def)
  have dl: "getDepth (m_root oc) = 0 \<or> getDepth (m_root oc) = Suc (getDepth (m_root oc) - 1)"
    by (cases "getDepth (m_root oc)") simp_all
  show ?thesis
    unfolding traverseFromRoot_def
    using traverse_finds [where R = "code_rel oc", OF code_rel_fun assms(3,5,6,7) T A _ dl]
      assms(4) R by simp
qed

section \<open>The cells of one depth and their buckets\<close>

definition loc3 :: "OctreeNode \<Rightarrow> uint \<times> uint \<times> uint" where
  "loc3 n = (getXLoc n, getYLoc n, getZLoc n)"

definition child_nodes :: "nat \<Rightarrow> OctreeNode \<Rightarrow> uint \<Rightarrow> OctreeNode list" where
  "child_nodes k n i = (case getChild n i of None \<Rightarrow> [] | Some c \<Rightarrow> getNodes k c [])"

lemma fold_append_concat:
  assumes "\<And>x ns. x \<in> set xs \<Longrightarrow> f x ns = ns @ g x"
  shows "fold f xs acc = acc @ concat (map g xs)"
  using assms by (induction xs arbitrary: acc) simp_all

lemma getNodes_append: "getNodes k n acc = acc @ getNodes k n []"
proof (induction n arbitrary: acc rule: node_induct)
  case (node n)
  show ?case
  proof (cases "getDepth n = k")
    case True
    then show ?thesis
      by (subst getNodes.simps, subst (2) getNodes.simps) simp
  next
    case False
    let ?f = "\<lambda>i ns. case getChild n i of None \<Rightarrow> ns | Some c \<Rightarrow> getNodes k c ns"
    have step: "?f i ns = ns @ child_nodes k n i" for i ns
    proof (cases "getChild n i")
      case None
      then show ?thesis by (simp add: child_nodes_def)
    next
      case (Some c)
      then show ?thesis
        using node [OF getChild_mem [OF Some], of ns] by (simp add: child_nodes_def)
    qed
    have f: "fold ?f xs acc = acc @ concat (map (child_nodes k n) xs)" for xs acc
      by (rule fold_append_concat) (rule step)
    have e: "getNodes k n acc = fold ?f [0, 1, 2, 3, 4, 5, 6, 7] acc" for acc
      by (subst getNodes.simps, simp only: False if_False)
    show ?thesis
      unfolding e f by simp
  qed
qed

lemma getNodes_unfold:
  "getNodes k n [] =
     (if getDepth n = k then [n]
      else concat (map (child_nodes k n) [0, 1, 2, 3, 4, 5, 6, 7]))"
proof -
  let ?f = "\<lambda>i ns. case getChild n i of None \<Rightarrow> ns | Some c \<Rightarrow> getNodes k c ns"
  have step: "?f i ns = ns @ child_nodes k n i" for i ns
    using getNodes_append [of k _ ns] by (simp add: child_nodes_def split: option.splits)
  have f: "fold ?f xs acc = acc @ concat (map (child_nodes k n) xs)" for xs acc
    by (rule fold_append_concat) (rule step)
  show ?thesis
  proof (cases "getDepth n = k")
    case True
    then show ?thesis
      by (subst getNodes.simps) simp
  next
    case False
    have "getNodes k n [] = fold ?f [0, 1, 2, 3, 4, 5, 6, 7] []"
      by (subst getNodes.simps, simp only: False if_False)
    then show ?thesis
      unfolding f using False by simp
  qed
qed

lemma subnodes_on_path:
  "tree_inv D og S R n \<Longrightarrow> m \<in> set (subnodes n) \<Longrightarrow>
     on_path n (getXLoc m) (getYLoc m) (getZLoc m)"
proof (induction n rule: node_induct)
  case (node n)
  have n: "node_ok D og S R n"
    using node.prems(1) by (subst (asm) tree_inv_unfold) simp
  show ?case
  proof (cases "m = n")
    case True
    then show ?thesis by (simp add: on_path_def)
  next
    case False
    then obtain c where c: "Some c \<in> set (m_child n)" "m \<in> set (subnodes c)"
      using node.prems(2) by (auto simp: set_subnodes [of n])
    have "tree_inv D og S R c"
      using node.prems(1) c(1) by (subst (asm) tree_inv_unfold) simp
    then have "on_path c (getXLoc m) (getYLoc m) (getZLoc m)"
      using node.IH [OF c(1) _ c(2)] by blast
    moreover obtain j where "child_ok n j c"
      using n c(1) by (rule child_nth)
    ultimately show ?thesis
      using child_on_path(1) n unfolding node_ok_def by blast
  qed
qed

lemma getNodes_subnodes:
  "m \<in> set (getNodes k n []) \<Longrightarrow> m \<in> set (subnodes n) \<and> getDepth m = k"
proof (induction n rule: node_induct)
  case (node n)
  show ?case
  proof (cases "getDepth n = k")
    case True
    then show ?thesis
      using node.prems by (simp add: getNodes_unfold [of k n] set_subnodes [of n])
  next
    case False
    with node.prems have "m \<in> set (concat (map (child_nodes k n) [0, 1, 2, 3, 4, 5, 6, 7]))"
      by (simp only: getNodes_unfold [of k n] if_False)
    then obtain i where "m \<in> set (child_nodes k n i)"
      unfolding set_concat set_map by blast
    then obtain c where "getChild n i = Some c" "m \<in> set (getNodes k c [])"
      by (cases "getChild n i") (simp_all add: child_nodes_def)
    then show ?thesis
      using node.IH [of c] getChild_mem [of n i c] by (auto simp: set_subnodes [of n])
  qed
qed


lemma distinct_concat_map:
  assumes "distinct js" "\<And>i. i \<in> set js \<Longrightarrow> distinct (h i)"
    and "\<And>i j. i \<in> set js \<Longrightarrow> j \<in> set js \<Longrightarrow> i \<noteq> j \<Longrightarrow> set (h i) \<inter> set (h j) = {}"
  shows "distinct (concat (map h js))"
  using assms
proof (induction js)
  case Nil
  then show ?case by simp
next
  case (Cons i js)
  have "distinct (concat (map h js))"
    using Cons by simp
  moreover have "set (h i) \<inter> set (concat (map h js)) = {}"
    using Cons.prems(1,3) by fastforce
  ultimately show ?case
    using Cons.prems(2) by simp
qed

lemma idx8_unat: "i \<in> set [0, 1, 2, 3, 4, 5, 6, 7 :: uint] \<Longrightarrow> unat i < 8"
  by auto

lemma child_nodes_on_path:
  assumes "tree_inv D og S R n" "m \<in> set (child_nodes k n i)" "unat i < 8"
  shows "parity (getXLoc m) (getDepth n - 1) = (unat i div 4) mod 2"
    and "parity (getYLoc m) (getDepth n - 1) = (unat i div 2) mod 2"
    and "parity (getZLoc m) (getDepth n - 1) = unat i mod 2"
proof -
  have n: "node_ok D og S R n"
    using assms(1) by (subst (asm) tree_inv_unfold) simp
  have len: "length (m_child n) = 8"
    using n by (simp add: node_ok_def cell_ok_def)
  obtain c where c: "getChild n i = Some c" "m \<in> set (getNodes k c [])"
    using assms(2) by (cases "getChild n i") (simp_all add: child_nodes_def)
  have tc: "tree_inv D og S R c"
    using assms(1) getChild_mem [OF c(1)] by (subst (asm) tree_inv_unfold) simp
  have "m_child n ! unat i = Some c"
    using c(1) len assms(3) by (simp add: getChild_nth)
  then have ck: "child_ok n (unat i) c"
    using n assms(3) by (simp add: node_ok_def)
  then have dc: "getDepth c = getDepth n - 1"
    by (simp add: child_ok_def)
  have "on_path c (getXLoc m) (getYLoc m) (getZLoc m)"
    using subnodes_on_path [OF tc] getNodes_subnodes [OF c(2)] by simp
  then show "parity (getXLoc m) (getDepth n - 1) = (unat i div 4) mod 2"
    "parity (getYLoc m) (getDepth n - 1) = (unat i div 2) mod 2"
    "parity (getZLoc m) (getDepth n - 1) = unat i mod 2"
    using child_on_path(2,3,4) [of D og S R n "unat i" c] n ck
    unfolding node_ok_def dc by blast+
qed

lemma getNodes_distinct:
  "tree_inv D og S R n \<Longrightarrow> distinct (map loc3 (getNodes k n []))"
proof (induction n rule: node_induct)
  case (node n)
  show ?case
  proof (cases "getDepth n = k")
    case True
    then show ?thesis
      by (simp add: getNodes_unfold [of k n])
  next
    case False
    let ?h = "\<lambda>i. map loc3 (child_nodes k n i)"
    have "distinct (concat (map ?h [0, 1, 2, 3, 4, 5, 6, 7]))"
    proof (rule distinct_concat_map)
      show "distinct [0, 1, 2, 3, 4, 5, 6, 7 :: uint]"
        by simp
    next
      fix i :: uint
      show "distinct (?h i)"
      proof (cases "getChild n i")
        case None
        then show ?thesis by (simp add: child_nodes_def)
      next
        case (Some c)
        have "tree_inv D og S R c"
          using node.prems getChild_mem [OF Some] by (subst (asm) tree_inv_unfold) simp
        then show ?thesis
          using node.IH [OF getChild_mem [OF Some]] Some by (simp add: child_nodes_def)
      qed
    next
      fix i j :: uint
      assume i: "i \<in> set [0, 1, 2, 3, 4, 5, 6, 7]" and j: "j \<in> set [0, 1, 2, 3, 4, 5, 6, 7]"
        and ij: "i \<noteq> j"
      show "set (?h i) \<inter> set (?h j) = {}"
      proof (rule ccontr)
        assume "set (?h i) \<inter> set (?h j) \<noteq> {}"
        then obtain t where "t \<in> set (?h i)" "t \<in> set (?h j)"
          by blast
        then obtain m m' where m: "m \<in> set (child_nodes k n i)" "m' \<in> set (child_nodes k n j)"
          "loc3 m = loc3 m'"
          by (auto simp: image_iff)
        have e: "getXLoc m = getXLoc m'" "getYLoc m = getYLoc m'" "getZLoc m = getZLoc m'"
          using m(3) by (simp_all add: loc3_def)
        have "(unat i div 4) mod 2 = (unat j div 4) mod 2"
          "(unat i div 2) mod 2 = (unat j div 2) mod 2" "unat i mod 2 = unat j mod 2"
          using child_nodes_on_path [OF node.prems m(1) idx8_unat [OF i]]
            child_nodes_on_path [OF node.prems m(2) idx8_unat [OF j]]
          unfolding e by simp_all
        then have "unat i = unat j"
          using bits_of_index [OF idx8_unat [OF i]] bits_of_index [OF idx8_unat [OF j]] by simp
        then show False
          using ij by (simp add: word_unat_eq_iff)
      qed
    qed
    then show ?thesis
      using False by (simp only: getNodes_unfold [of k n] if_False map_concat map_map o_def)
  qed
qed

subsection \<open>the buckets\<close>

lemma push_bucket_Inl: "fold push_bucket xs (Inl e) = Inl e"
  by (induction xs) (simp_all add: push_bucket_def)

lemma fold_push_bucket:
  "fold push_bucket xs (Inr coll0) = Inr coll \<Longrightarrow>
     length coll = length coll0
     \<and> (\<forall>b < length coll0.
           coll ! b = coll0 ! b @ filter (\<lambda>m. map_option unat (getNChild m) = Some b) xs)"
proof (induction xs arbitrary: coll0)
  case Nil
  then show ?case by simp
next
  case (Cons x xs)
  show ?case
  proof (cases "getNChild x")
    case None
    then have "push_bucket x (Inr coll0) = Inl Uninitialized_read"
      by (simp add: push_bucket_def)
    then show ?thesis
      using Cons.prems by (simp add: push_bucket_Inl)
  next
    case (Some i)
    show ?thesis
    proof (cases "unat i < length coll0")
      case False
      then have "push_bucket x (Inr coll0) = Inl Invalid_iterator"
        using Some by (simp add: push_bucket_def)
      then show ?thesis
        using Cons.prems by (simp add: push_bucket_Inl)
    next
      case True
      let ?c1 = "coll0[unat i := coll0 ! unat i @ [x]]"
      have "push_bucket x (Inr coll0) = Inr ?c1"
        using Some True by (simp add: push_bucket_def)
      then have "fold push_bucket xs (Inr ?c1) = Inr coll"
        using Cons.prems by simp
      from Cons.IH [OF this] show ?thesis
        using Some by (auto simp: nth_list_update)
    qed
  qed
qed

lemma axis_far:
  assumes "2 ^ k dvd (p::nat)" "2 ^ k dvd p'" "p \<noteq> p'"
    and "(p div 2 ^ k) mod 2 = (p' div 2 ^ k) mod 2"
  shows "2 * 2 ^ k \<le> \<bar>int p - int p'\<bar>"
proof -
  obtain a a' where p: "p = 2 ^ k * a" "p' = 2 ^ k * a'"
    using assms(1,2) by (auto elim!: dvdE)
  have "a mod 2 = a' mod 2" "a \<noteq> a'"
    using assms(3,4) by (simp_all add: p)
  then have "2 \<le> \<bar>int a - int a'\<bar>"
    by presburger
  then have "2 ^ k * 2 \<le> (2 ^ k :: int) * \<bar>int a - int a'\<bar>"
    by (intro mult_left_mono) simp_all
  also have "\<dots> = \<bar>2 ^ k * (int a - int a')\<bar>"
    by (simp add: abs_mult)
  also have "2 ^ k * (int a - int a') = int p - int p'"
    by (simp add: p right_diff_distrib)
  finally show ?thesis
    by (simp add: mult.commute)
qed

lemma parity_of_index:
  assumes "4 * a + 2 * b + c = 4 * a' + 2 * b' + (c'::nat)"
    and "a \<le> 1" "b \<le> 1" "c \<le> 1" "a' \<le> 1" "b' \<le> 1" "c' \<le> 1"
  shows "a = a' \<and> b = b' \<and> c = c'"
proof -
  have "a = 0 \<or> a = 1" "b = 0 \<or> b = 1" "c = 0 \<or> c = 1"
    "a' = 0 \<or> a' = 1" "b' = 0 \<or> b' = 1" "c' = 0 \<or> c' = 1"
    using assms(2-7) by linarith+
  then show ?thesis
    using assms(1) by auto
qed


lemma bucket_nodes:
  assumes "tree_inv D og S R rt" "getNodes_buckets k rt [] = Inr node_collection"
    and "b < length node_collection"
  shows "length node_collection = 8"
    and "distinct (map loc3 (node_collection ! b))"
    and "\<And>m. m \<in> set (node_collection ! b) \<Longrightarrow>
           cell_ok D og S R m \<and> getDepth m = k \<and> (\<exists>z. getNChild m = Some z \<and> unat z = b)"
proof -
  let ?nodes = "getNodes k rt []"
  let ?P = "\<lambda>m. map_option unat (getNChild m) = Some b"
  have f: "fold push_bucket (rev ?nodes) (Inr (replicate 8 [])) = Inr node_collection"
    using assms(2) by (simp add: getNodes_buckets_def)
  note fb = fold_push_bucket [OF f]
  show len: "length node_collection = 8"
    using fb by simp
  have b: "b < 8"
    using assms(3) len by simp
  then have e: "node_collection ! b = filter ?P (rev ?nodes)"
    using fb by simp
  have "distinct (map loc3 (rev ?nodes))"
    using getNodes_distinct [OF assms(1), of k] by (simp add: rev_map [symmetric])
  then show "distinct (map loc3 (node_collection ! b))"
    unfolding e by (rule distinct_map_filter)
  fix m
  assume "m \<in> set (node_collection ! b)"
  then have m: "m \<in> set ?nodes" "?P m"
    unfolding e by simp_all
  have "m \<in> set (subnodes rt)" "getDepth m = k"
    using getNodes_subnodes [OF m(1)] by simp_all
  moreover from this have "cell_ok D og S R m"
    using assms(1) by (simp add: tree_inv_def node_ok_def)
  moreover have "\<exists>z. getNChild m = Some z \<and> unat z = b"
    using m(2) by (cases "getNChild m") simp_all
  ultimately show "cell_ok D og S R m \<and> getDepth m = k \<and> (\<exists>z. getNChild m = Some z \<and> unat z = b)"
    by blast
qed

lemma same_bucket_parity:
  assumes "cell_ok D og S R m" "cell_ok D og S R m'" "getDepth m = k" "getDepth m' = k"
    and "getNChild m = Some z" "getNChild m' = Some z'" "unat z = unat z'"
  shows "parity (getXLoc m) k = parity (getXLoc m') k"
    and "parity (getYLoc m) k = parity (getYLoc m') k"
    and "parity (getZLoc m) k = parity (getZLoc m') k"
proof -
  have "4 * parity (getXLoc m) k + 2 * parity (getYLoc m) k + parity (getZLoc m) k
      = 4 * parity (getXLoc m') k + 2 * parity (getYLoc m') k + parity (getZLoc m') k"
    using assms by (simp add: cell_ok_def)
  then have "parity (getXLoc m) k = parity (getXLoc m') k
      \<and> parity (getYLoc m) k = parity (getYLoc m') k
      \<and> parity (getZLoc m) k = parity (getZLoc m') k"
    by (rule parity_of_index) (rule parity_le)+
  then show "parity (getXLoc m) k = parity (getXLoc m') k"
    "parity (getYLoc m) k = parity (getYLoc m') k" "parity (getZLoc m) k = parity (getZLoc m') k"
    by simp_all
qed

section \<open>The neighbour query reaches every sample inside the ball\<close>

text \<open>
  The cells of the searched level are at least two radii wide, so a sample closer than
  the radius to the query lies in the cell of the query or in a cell next to it, and the
  tests of \<^verbatim>\<open>getNeighbors\<close> add the code of that cell to the candidates.
\<close>

subsection \<open>the candidate codes of one axis\<close>

lemma slab_cell:
  assumes "0 < leaf" "int c = \<lfloor>x / leaf\<rfloor>"
  shows "real (c div 2 ^ s) * (2 ^ s * leaf) \<le> x"
    and "x < (real (c div 2 ^ s) + 1) * (2 ^ s * leaf)"
proof -
  define m where "m = c div 2 ^ s"
  have c: "real c \<le> x / leaf" "x / leaf < real c + 1"
    using assms(2) by linarith+
  have "m * 2 ^ s \<le> c"
    unfolding m_def by simp
  then have "real m * 2 ^ s \<le> real c"
    by (metis of_nat_le_iff of_nat_mult of_nat_numeral of_nat_power)
  then have "real m * 2 ^ s \<le> x / leaf"
    using c(1) by linarith
  then have "real m * 2 ^ s * leaf \<le> x"
    using assms(1) by (simp add: pos_le_divide_eq)
  then show "real (c div 2 ^ s) * (2 ^ s * leaf) \<le> x"
    by (simp add: m_def mult.assoc)
  have "c mod 2 ^ s < 2 ^ s"
    by simp
  moreover have "c = m * 2 ^ s + c mod 2 ^ s"
    unfolding m_def by (rule div_mult_mod_eq [symmetric])
  ultimately have "c < m * 2 ^ s + 2 ^ s"
    by linarith
  then have "c < (m + 1) * 2 ^ s"
    by simp
  then have "c + 1 \<le> (m + 1) * 2 ^ s"
    by simp
  then have "real c + 1 \<le> (real m + 1) * 2 ^ s"
    by (metis (mono_tags, opaque_lifting) of_nat_1 of_nat_add of_nat_le_iff of_nat_mult of_nat_numeral of_nat_power)
  then have "x / leaf < (real m + 1) * 2 ^ s"
    using c(2) by linarith
  then have "x < (real m + 1) * 2 ^ s * leaf"
    using assms(1) by (simp add: pos_divide_less_eq)
  then show "x < (real (c div 2 ^ s) + 1) * (2 ^ s * leaf)"
    by (simp add: m_def mult.assoc)
qed

lemma cell_unique:
  assumes "0 < (w::real)" "real m * w \<le> x" "x < (real m + 1) * w"
    and "real m' * w \<le> x" "x < (real m' + 1) * w"
  shows "m = m'"
proof -
  have "real m * w < (real m' + 1) * w" "real m' * w < (real m + 1) * w"
    using assms by linarith+
  then have "real m < real m' + 1" "real m' < real m + 1"
    using assms(1) by (simp_all add: mult_less_cancel_right)
  then show ?thesis
    by linarith
qed


lemma axis_cases:
  fixes w r xq xu :: real and m mu K :: nat
  assumes r: "0 < r" and w: "0 < w"
    and Q: "real m * w \<le> xq" "xq < (real m + 1) * w"
    and U: "real mu * w \<le> xu" "xu < (real mu + 1) * w"
    and K: "mu + 1 \<le> K" "m + 1 \<le> K"
    and near: "\<bar>xq - xu\<bar> < r"
    and side: "2 * r \<le> w \<or> K = 1"
  shows "mu = m
    \<or> (mu + 1 = m \<and> xq - r < real m * w \<and> 0 < xq - r)
    \<or> (mu = m + 1 \<and> (real m + 1) * w < xq + r \<and> xq + r < real K * w)"
proof (cases "K = 1")
  case True
  then show ?thesis
    using K by simp
next
  case False
  then have side: "2 * r \<le> w"
    using side by simp
  consider (left) "xu < real m * w" | (right) "(real m + 1) * w \<le> xu"
    | (mid) "real m * w \<le> xu" "xu < (real m + 1) * w"
    by linarith
  then show ?thesis
  proof cases
    case mid
    then have "m = mu"
      using cell_unique [OF w mid U] by simp
    then show ?thesis
      by simp
  next
    case left
    have "0 \<le> real mu * w"
      using w by simp
    then have "0 < real m * w"
      using left U(1) by linarith
    then have m: "1 \<le> m"
      by (cases m) simp_all
    then have rm: "real (m - 1) = real m - 1"
      by simp
    have mw: "real (m - 1) * w = real m * w - w"
      unfolding rm by (simp add: algebra_simps)
    have "real m * w - w \<le> xu"
      using near Q(1) side r by linarith
    then have lo: "real (m - 1) * w \<le> xu"
      by (simp only: mw)
    have e: "(real (m - 1) + 1) * w = real m * w"
      by (simp only: rm) simp
    have hi: "xu < (real (m - 1) + 1) * w"
      unfolding e by (rule left)
    have "m - 1 = mu"
      by (rule cell_unique [OF w lo hi U])
    then have "mu + 1 = m"
      using m by simp
    moreover have "xq - r < real m * w"
      using near left by linarith
    moreover have "0 \<le> real (m - 1) * w"
      using w by simp
    then have "0 < xq - r"
      unfolding mw using Q(1) side r by linarith
    ultimately show ?thesis
      by simp
  next
    case right
    have mw: "(real (m + 1) + 1) * w = (real m + 1) * w + w"
      by (simp add: algebra_simps)
    have lo: "real (m + 1) * w \<le> xu"
      using right by (simp add: algebra_simps)
    have "xu < (real m + 1) * w + w"
      using near Q(2) side r by linarith
    then have hi: "xu < (real (m + 1) + 1) * w"
      by (simp only: mw)
    have mu: "m + 1 = mu"
      by (rule cell_unique [OF w lo hi U])
    have "real (m + 2) \<le> real K"
      using K(1) mu by simp
    then have "real (m + 2) * w \<le> real K * w"
      using w by (simp only: mult_le_cancel_right_pos)
    moreover have "real (m + 2) * w = (real m + 1) * w + w"
      by (simp add: algebra_simps)
    ultimately have "xq + r < real K * w"
      using Q(2) side r by linarith
    moreover have "(real m + 1) * w < xq + r"
      using near right by linarith
    ultimately show ?thesis
      using mu by simp
  qed
qed

lemma unat_left_code:
  fixes loc :: uint
  assumes "unat loc = m * 2 ^ s" "1 \<le> m"
  shows "unat (loc - 1) div 2 ^ s = m - 1"
proof -
  have pos: "(0::nat) < 2 ^ s"
    by simp
  have "loc \<noteq> 0"
    using assms by (auto simp: unat_eq_0 [symmetric] simp del: unat_eq_0)
  then have "unat (loc - 1) = m * 2 ^ s - 1"
    using assms(1) by (simp add: unat_minus_one)
  moreover have "m * 2 ^ s - 1 = (m - 1) * 2 ^ s + (2 ^ s - 1)"
    using assms(2) pos by (cases m) (simp_all add: algebra_simps)
  moreover have "((m - 1) * 2 ^ s + (2 ^ s - 1)) div 2 ^ s = (m - 1) + (2 ^ s - 1) div 2 ^ s"
    by (rule div_mult_self3) simp
  moreover have "((2::nat) ^ s - 1) div 2 ^ s = 0"
    by (rule div_less) simp
  ultimately show ?thesis
    by simp
qed

lemma unat_right_code:
  fixes loc :: uint
  assumes "unat loc = m * 2 ^ s" "m * 2 ^ s + 2 ^ s \<le> 2 ^ D" "D < 32" "s \<le> D"
  shows "unat (loc + of_nat (2 ^ s)) div 2 ^ s = m + 1"
proof -
  have "(2::nat) ^ D < 2 ^ 32"
    using assms(3) by (intro power_strict_increasing) simp_all
  then have lt: "m * 2 ^ s + 2 ^ s < 2 ^ 32"
    using assms(2) by linarith
  have "unat (of_nat (2 ^ s) :: 32 word) = 2 ^ s"
    using unat_2p [of s] assms(3,4) by simp
  then have "unat (loc + of_nat (2 ^ s)) = m * 2 ^ s + 2 ^ s"
    using lt assms(1) by (simp add: unat_add_lem [THEN iffD1])
  then show ?thesis
    by simp
qed


lemma axis_locs_reach:
  fixes loc :: uint
  assumes S: "0 < S" and D: "D < 32" and s: "s \<le> D" and r: "0 < r"
    and ax: "axis_ok D og S s loc no"
    and cq: "int cq = \<lfloor>(qv - og) / (S / 2 ^ D)\<rfloor>" "cq div 2 ^ s = unat loc div 2 ^ s"
    and cu: "int cu = \<lfloor>(uv - og) / (S / 2 ^ D)\<rfloor>" "cu < 2 ^ D"
    and near: "\<bar>qv - uv\<bar> < r"
    and side: "2 * r \<le> S / 2 ^ (D - s) \<or> s = D"
  shows "\<exists>c \<in> set (axis_locs qv r no (S / 2 ^ (D - s)) og S loc (loc - 1) (loc + of_nat (pow2 s))).
           unat c div 2 ^ s = cu div 2 ^ s"
proof -
  define leaf where "leaf = S / 2 ^ D"
  define w where "w = 2 ^ s * leaf"
  define K :: nat where "K = 2 ^ (D - s)"
  define m where "m = unat loc div 2 ^ s"
  define mu where "mu = cu div 2 ^ s"
  have leaf: "0 < leaf"
    using S by (simp add: leaf_def)
  have w: "0 < w"
    using leaf by (simp add: w_def)
  have KD: "(2::nat) ^ D = K * 2 ^ s"
    unfolding K_def using s by (simp flip: power_add)
  then have e: "real K * 2 ^ s = (2::real) ^ D"
    by (metis of_nat_mult of_nat_numeral of_nat_power)
  have "real K * w = (real K * 2 ^ s) * S / 2 ^ D"
    by (simp add: w_def leaf_def)
  also have "\<dots> = S"
    unfolding e by simp
  finally have Kw: "real K * w = S" .
  have ws: "S / 2 ^ (D - s) = w"
    using Kw by (simp add: K_def field_simps)
  have P: "unat loc = m * 2 ^ s" and le: "unat loc + 2 ^ s \<le> 2 ^ D"
    and no: "no = og + real (unat loc) * leaf"
    using ax by (auto simp: axis_ok_def m_def leaf_def)
  have now: "no = og + real m * w"
    unfolding no P w_def by simp
  have "(m + 1) * 2 ^ s \<le> K * 2 ^ s"
    using le unfolding P KD by simp
  then have mK: "m + 1 \<le> K"
    unfolding mult_le_cancel2 by simp
  have "cu < K * 2 ^ s"
    using cu(2) KD by simp
  then have "mu < K"
    unfolding mu_def by (rule less_mult_imp_div_less)
  then have muK: "mu + 1 \<le> K"
    by simp
  have Q: "real m * w \<le> qv - og" "qv - og < (real m + 1) * w"
    using slab_cell [OF leaf cq(1) [folded leaf_def], of s]
    unfolding cq(2) m_def [symmetric] w_def by simp_all
  have U: "real mu * w \<le> uv - og" "uv - og < (real mu + 1) * w"
    using slab_cell [OF leaf cu(1) [folded leaf_def], of s]
    unfolding mu_def [symmetric] w_def by simp_all
  have near': "\<bar>(qv - og) - (uv - og)\<bar> < r"
    using near by simp
  have side': "2 * r \<le> w \<or> K = 1"
    using side s by (auto simp: ws K_def)
  note cases = axis_cases [OF r w Q U muK mK near' side']
  let ?L = "axis_locs qv r no (S / 2 ^ (D - s)) og S loc (loc - 1) (loc + of_nat (pow2 s))"
  consider (mid) "mu = m"
    | (left) "mu + 1 = m" "qv - og - r < real m * w" "0 < qv - og - r"
    | (right) "mu = m + 1" "(real m + 1) * w < qv - og + r" "qv - og + r < real K * w"
    using cases by blast
  then show ?thesis
  proof cases
    case mid
    have "loc \<in> set ?L"
      by (simp add: axis_locs_def)
    moreover have "unat loc div 2 ^ s = cu div 2 ^ s"
      using mid by (simp add: m_def mu_def)
    ultimately show ?thesis
      by blast
  next
    case left
    have "qv - r < no" "og < qv - r"
      using left(2,3) unfolding now by linarith+
    then have "loc - 1 \<in> set ?L"
      by (simp add: axis_locs_def)
    moreover have "unat (loc - 1) div 2 ^ s = m - 1"
      using left(1) by (intro unat_left_code [OF P]) simp
    then have "unat (loc - 1) div 2 ^ s = cu div 2 ^ s"
      using left(1) by (simp add: mu_def)
    ultimately show ?thesis
      by blast
  next
    case right
    have "(real m + 1) * w = real m * w + w"
      by (simp add: algebra_simps)
    then have "no + w < qv + r" "qv + r < og + S"
      using right(2,3) unfolding now Kw by linarith+
    then have "loc + of_nat (pow2 s) \<in> set ?L"
      by (simp add: axis_locs_def ws)
    moreover have "m * 2 ^ s + 2 ^ s \<le> 2 ^ D"
      using le P by simp
    then have "unat (loc + of_nat (2 ^ s)) div 2 ^ s = m + 1"
      using D s by (intro unat_right_code [OF P])
    then have "unat (loc + of_nat (pow2 s)) div 2 ^ s = cu div 2 ^ s"
      using right(1) by (simp add: mu_def pow2_def)
    ultimately show ?thesis
      by blast
  qed
qed


subsection \<open>the exploration of a cell reaches every sample below it\<close>

lemma fold_appends_mem:
  assumes app: "\<And>x ns. \<exists>ys. f x ns = ns @ ys"
    and hit: "\<And>ns. \<exists>ys. f x ns = ns @ ys \<and> a \<in> set ys"
    and x: "x \<in> set xs"
  shows "\<exists>ys. fold f xs ns = ns @ ys \<and> a \<in> set ys"
  using x
proof (induction xs arbitrary: ns)
  case Nil
  then show ?case by simp
next
  case (Cons y ys)
  show ?case
  proof (cases "x = y")
    case True
    obtain zs where zs: "f y ns = ns @ zs" "a \<in> set zs"
      using hit [of ns] unfolding True by blast
    have "\<exists>ws. fold f ys (ns @ zs) = (ns @ zs) @ ws \<and> (\<forall>b \<in> set ws. True)"
      by (rule fold_appends) (use app in simp)
    then obtain ws where "fold f ys (ns @ zs) = (ns @ zs) @ ws"
      by blast
    then show ?thesis
      using zs by (intro exI [of _ "zs @ ws"]) simp
  next
    case False
    then have "x \<in> set ys"
      using Cons.prems by simp
    obtain zs where zs: "f y ns = ns @ zs"
      using app [of y ns] by blast
    obtain ws where "fold f ys (ns @ zs) = (ns @ zs) @ ws" "a \<in> set ws"
      using Cons.IH [OF \<open>x \<in> set ys\<close>, of "ns @ zs"] by blast
    then show ?thesis
      using zs by (intro exI [of _ "zs @ ws"]) simp
  qed
qed

lemma explore_appends_only: "\<exists>ys. explore it st n q ns = ns @ ys"
  using explore_appends [of it st n q ns] by blast

lemma index8:
  assumes "(j::nat) < 8"
  shows "(of_nat j :: uint) \<in> set [0, 1, 2, 3, 4, 5, 6, 7]" and "unat (of_nat j :: uint) = j"
proof -
  consider "j = 0" | "j = 1" | "j = 2" | "j = 3" | "j = 4" | "j = 5" | "j = 6" | "j = 7"
    using assms by linarith
  then show "(of_nat j :: uint) \<in> set [0, 1, 2, 3, 4, 5, 6, 7]"
    by cases simp_all
  show "unat (of_nat j :: uint) = j"
    using assms by (simp add: unat_of_nat)
qed

lemma explore_complete:
  "tree_inv D og S R n \<Longrightarrow> a \<in> addrs n \<Longrightarrow> dist2 q (st ! a) < m_sqradius it \<Longrightarrow>
     \<exists>ys. explore it st n q ns = ns @ ys \<and> a \<in> set ys"
proof (induction n arbitrary: ns rule: node_induct)
  case (node n)
  have n: "node_ok D og S R n"
    using node.prems(1) by (subst (asm) tree_inv_unfold) simp
  show ?case
  proof (cases "getDepth n = 0")
    case True
    then have a: "a \<in> set (m_points n)"
      using node.prems(2) by (simp add: addrs_leaf)
    then have "m_points n \<noteq> []"
      by auto
    then have np: "getNpts n \<noteq> 0"
      using n by (simp add: node_ok_def cell_ok_def)
    let ?g = "\<lambda>iter ns. let dist = dist2 q (st ! iter)
                          in if dist < m_sqradius it then ns @ [iter] else ns"
    have "\<exists>ys. fold ?g (m_points n) ns = ns @ ys \<and> a \<in> set ys"
    proof (rule fold_appends_mem [where x = a])
      show "\<exists>ys. ?g x ns = ns @ ys" for x ns
        by (simp add: Let_def)
      show "\<exists>ys. ?g a ns = ns @ ys \<and> a \<in> set ys" for ns
        using node.prems(3) by (simp add: Let_def)
      show "a \<in> set (m_points n)"
        by (rule a)
    qed
    then show ?thesis
      using True np by (subst explore.simps) simp
  next
    case False
    then obtain c where c: "Some c \<in> set (m_child n)" "a \<in> addrs c"
      using node.prems(2) by (auto simp: addrs_inner)
    have tc: "tree_inv D og S R c"
      using node.prems(1) c(1) by (subst (asm) tree_inv_unfold) simp
    obtain j where j: "j < 8" "m_child n ! j = Some c" "child_ok n j c"
      using n c(1) by (rule child_nth)
    have len: "length (m_child n) = 8"
      using n by (simp add: node_ok_def cell_ok_def)
    have g: "getChild n (of_nat j) = Some c"
      using j(1,2) len index8(2) [OF j(1)] by (simp add: getChild_nth)
    let ?f = "\<lambda>i ns. case getChild n i of None \<Rightarrow> ns | Some c \<Rightarrow> explore it st c q ns"
    have "\<exists>ys. fold ?f [0, 1, 2, 3, 4, 5, 6, 7] ns = ns @ ys \<and> a \<in> set ys"
    proof (rule fold_appends_mem [where x = "of_nat j"])
      show "\<exists>ys. ?f x ns = ns @ ys" for x ns
        by (cases "getChild n x") (simp_all add: explore_appends_only)
      show "\<exists>ys. ?f (of_nat j) ns = ns @ ys \<and> a \<in> set ys" for ns
        using node.IH [OF c(1) tc c(2) node.prems(3)] by (simp add: g)
      show "of_nat j \<in> set [0, 1, 2, 3, 4, 5, 6, 7 :: uint]"
        by (rule index8(1) [OF j(1)])
    qed
    then show ?thesis
      using False by (subst explore.simps) simp
  qed
qed

subsection \<open>the cell that the descent reaches\<close>

lemma traverse_tree_inv:
  "tree_inv D og S R n \<Longrightarrow> tree_inv D og S R (traverseToLevel n l x y z k)"
proof (induction n arbitrary: l rule: node_induct)
  case (node n)
  show ?case
  proof (cases "k < getDepth n")
    case False
    then show ?thesis
      using node.prems by (simp add: traverseToLevel_stop)
  next
    case True
    show ?thesis
    proof (cases "getChild n (childIndex l x y z)")
      case None
      then show ?thesis
        using True node.prems by (simp add: traverseToLevel_step)
    next
      case (Some c)
      have m: "Some c \<in> set (m_child n)"
        using Some by (rule getChild_mem)
      have "tree_inv D og S R c"
        using node.prems m by (subst (asm) tree_inv_unfold) simp
      then show ?thesis
        using True Some node.IH [OF m] by (simp add: traverseToLevel_step)
    qed
  qed
qed

lemma traverse_on_path:
  "tree_inv D og S R n \<Longrightarrow> on_path n x y z \<Longrightarrow> getDepth n = 0 \<or> getDepth n = Suc l \<Longrightarrow>
     on_path (traverseToLevel n l x y z k) x y z
     \<and> (k \<le> getDepth (traverseToLevel n l x y z k) \<or> traverseToLevel n l x y z k = n)"
proof (induction n arbitrary: l rule: node_induct)
  case (node n)
  have n: "node_ok D og S R n"
    using node.prems(1) by (subst (asm) tree_inv_unfold) simp
  show ?case
  proof (cases "k < getDepth n")
    case False
    then show ?thesis
      using node.prems(2) by (simp add: traverseToLevel_stop)
  next
    case True
    then have dn: "getDepth n = Suc l"
      using node.prems(3) by simp
    show ?thesis
    proof (cases "getChild n (childIndex l x y z)")
      case None
      then show ?thesis
        using True node.prems(2) by (simp add: traverseToLevel_step)
    next
      case (Some c)
      have m: "Some c \<in> set (m_child n)"
        using Some by (rule getChild_mem)
      have tc: "tree_inv D og S R c"
        using node.prems(1) m by (subst (asm) tree_inv_unfold) simp
      have nc: "next_child n l x y z = c"
        by (simp add: next_child_def Some)
      have pc: "on_path c x y z"
        using next_child_on_path [OF n dn node.prems(2)] unfolding nc .
      have "child_ok n (unat (childIndex l x y z)) c"
        using next_child_child_ok [OF n dn, of x y z] unfolding nc .
      then have dc: "getDepth c = l"
        by (simp add: child_ok_def dn)
      have dl: "getDepth c = 0 \<or> getDepth c = Suc (l - 1)"
        using dc by (cases l) simp_all
      have t: "traverseToLevel n l x y z k = traverseToLevel c (l - 1) x y z k"
        using True Some by (simp add: traverseToLevel_step)
      have kl: "k \<le> l"
        using True dn by simp
      show ?thesis
        unfolding t using node.IH [OF m tc pc dl] kl dc by auto
    qed
  qed
qed

subsection \<open>the cells at the searched level are at least two radii wide\<close>

lemma to_uint_of_int_Some: "to_uint (of_int k) = Some z \<Longrightarrow> 0 \<le> k \<and> k < 2 ^ 32"
  by (auto simp: to_uint_def Let_def split: if_splits)

lemma setR_side:
  assumes "setR oc it0 r = Inr (True, it)" "0 < m_size oc"
  shows "0 < r" and "m_radius it = r" and "m_sqradius it = r * r"
    and "m_activeDepth it \<le> s \<Longrightarrow> s \<le> m_depth oc \<Longrightarrow> 2 * r \<le> m_size oc / 2 ^ (m_depth oc - s)"
proof -
  let ?v = "m_size oc / (2 * r)"
  let ?f = "\<lfloor>log 2 ?v\<rfloor>"
  let ?k = "int (m_depth oc) - ?f"
  have lt: "r < m_size oc"
    using assms(1) by (auto simp: setR_def split: if_splits)
  obtain d where d: "depth_for oc (2 * r) = Some d" and it: "it = it0\<lparr>m_radius := r, m_sqradius := r * r, m_activeDepth := d\<rparr>"
    using assms(1) lt by (auto simp: setR_def Let_def split: option.splits)
  have v: "0 < ?v" and u: "map_option unat (to_uint (real (m_depth oc) - real_of_int ?f)) = Some d"
    using d by (auto simp: depth_for_def floor_log2_def split: if_splits option.splits)
  show r: "0 < r"
    using v assms(2) by (simp add: zero_less_divide_iff)
  show "m_radius it = r" "m_sqradius it = r * r"
    by (simp_all add: it)
  have e: "real (m_depth oc) - real_of_int ?f = of_int ?k"
    by simp
  have "\<exists>z. to_uint (of_int ?k) = Some z"
    using u [unfolded e] unfolding map_option_eq_Some by blast
  then have k: "0 \<le> ?k" "?k < 2 ^ 32"
    using to_uint_of_int_Some [of ?k] by blast+
  have "map_option unat (to_uint (of_int ?k)) = Some (nat ?k)"
    using k by (rule to_uint_of_int)
  then have dk: "d = nat ?k"
    using u [unfolded e] by (simp only: option.inject)
  assume s: "m_activeDepth it \<le> s" "s \<le> m_depth oc"
  have "nat ?k \<le> s"
    using s(1) by (simp add: it dk)
  then have "int (m_depth oc - s) \<le> ?f"
    using s(2) k by linarith
  then have "real (m_depth oc - s) \<le> log 2 ?v"
    by (simp add: le_floor_iff)
  then have "2 powr real (m_depth oc - s) \<le> ?v"
    using v by (simp add: le_log_iff)
  then have "2 ^ (m_depth oc - s) \<le> ?v"
    by (simp add: powr_realpow)
  then have "2 * r * 2 ^ (m_depth oc - s) \<le> m_size oc"
    using r by (simp add: field_simps)
  then show "2 * r \<le> m_size oc / 2 ^ (m_depth oc - s)"
    by (simp add: field_simps)
qed

lemma explored_cells_mem:
  assumes "xi \<in> set (axis_locs (m_x q) (m_radius it) (m_x (getOrigin N)) (getSize N)
                      (m_x (m_origin oc)) (m_size oc) (getXLoc N) (getXLeftCode N) (getXRightCode N))"
    and "yi \<in> set (axis_locs (m_y q) (m_radius it) (m_y (getOrigin N)) (getSize N)
                      (m_y (m_origin oc)) (m_size oc) (getYLoc N) (getYLeftCode N) (getYRightCode N))"
    and "zi \<in> set (axis_locs (m_z q) (m_radius it) (m_z (getOrigin N)) (getSize N)
                      (m_z (m_origin oc)) (m_size oc) (getZLoc N) (getZLeftCode N) (getZRightCode N))"
    and "getDepth (traverseFromRoot oc xi yi zi s) = s"
  shows "traverseFromRoot oc xi yi zi s \<in> set (explored_cells oc it q N s)"
  unfolding explored_cells_def Let_def set_concat set_map using assms by fastforce

lemma square_less_abs:
  assumes "(x::real) * x < r * r" "0 < r"
  shows "\<bar>x\<bar> < r"
proof (rule ccontr)
  assume "\<not> \<bar>x\<bar> < r"
  then have "r \<le> \<bar>x\<bar>"
    by simp
  then have "r * r \<le> \<bar>x\<bar> * \<bar>x\<bar>"
    using assms(2) by (intro mult_mono) simp_all
  then show False
    using assms(1) by simp
qed

lemma dist2_axes:
  assumes "dist2 q p < r * r" "0 < r"
  shows "\<bar>m_x q - m_x p\<bar> < r" "\<bar>m_y q - m_y p\<bar> < r" "\<bar>m_z q - m_z p\<bar> < r"
proof -
  let ?x = "m_x q - m_x p" and ?y = "m_y q - m_y p" and ?z = "m_z q - m_z p"
  have "0 \<le> ?x * ?x" "0 \<le> ?y * ?y" "0 \<le> ?z * ?z"
    by simp_all
  then have "?x * ?x < r * r" "?y * ?y < r * r" "?z * ?z < r * r"
    using assms(1) unfolding dist2_def by linarith+
  then show "\<bar>?x\<bar> < r" "\<bar>?y\<bar> < r" "\<bar>?z\<bar> < r"
    using assms(2) by (simp_all add: square_less_abs)
qed


lemma root_on_path:
  assumes "octree_inv oc" "unat x < 2 ^ m_depth oc" "unat y < 2 ^ m_depth oc" "unat z < 2 ^ m_depth oc"
  shows "on_path (m_root oc) x y z"
  using assms by (simp add: on_path_def octree_inv_def)

section \<open>A small octree\<close>

text \<open>
  An octree of depth 2 over the cube of side 4 at the origin, with the two samples
  \<open>(0.5, 0.5, 0.5)\<close> and \<open>(3.5, 2.5, 1.5)\<close>, and the leaf of the second sample.
\<close>

definition ex_octree :: Octree where
  "ex_octree = initialize (setDepth new_Octree 2) \<lparr>m_x = 0, m_y = 0, m_z = 0\<rparr> 4"

definition ex_samples :: "Sample list" where
  "ex_samples = [new_Sample 0.5 0.5 0.5, new_Sample 3.5 2.5 1.5]"

definition ex_leaf0 :: OctreeNode where
  "ex_leaf0 = OctreeNode \<lparr>m_x = 0, m_y = 0, m_z = 0\<rparr> 1 0 0 0 0 (Some 0) 1 (replicate 8 None) [0]"

definition ex_leaf1 :: OctreeNode where
  "ex_leaf1 = OctreeNode \<lparr>m_x = 3, m_y = 2, m_z = 1\<rparr> 1 0 3 2 1 (Some 5) 1 (replicate 8 None) [1]"

definition ex_cell0 :: OctreeNode where
  "ex_cell0 = OctreeNode \<lparr>m_x = 0, m_y = 0, m_z = 0\<rparr> 2 1 0 0 0 (Some 0) 0
     [Some ex_leaf0, None, None, None, None, None, None, None] []"

definition ex_cell6 :: OctreeNode where
  "ex_cell6 = OctreeNode \<lparr>m_x = 2, m_y = 2, m_z = 0\<rparr> 2 1 2 2 0 (Some 6) 0
     [None, None, None, None, None, Some ex_leaf1, None, None] []"

definition ex_root :: OctreeNode where
  "ex_root = OctreeNode \<lparr>m_x = 0, m_y = 0, m_z = 0\<rparr> 4 2 0 0 0 None 0
     [Some ex_cell0, None, None, None, None, None, Some ex_cell6, None] []"

definition ex_built :: Octree where
  "ex_built =
     \<lparr>m_depth = 2, m_npoints = 2, m_origin = \<lparr>m_x = 0, m_y = 0, m_z = 0\<rparr>, m_size = 4,
      m_binsize = 4, m_root = ex_root, store = ex_samples\<rparr>"

lemmas ex_defs =
  ex_octree_def ex_samples_def ex_leaf0_def ex_leaf1_def ex_cell0_def ex_cell6_def
  ex_root_def ex_built_def

definition ex_it :: OctreeIterator where
  "ex_it = \<lparr>m_activeDepth = 1, m_radius = 1, m_sqradius = 1\<rparr>"

lemmas query_defs =
  getNeighbors_node_def explored_cells_def search_level_def axis_locs_def traverseFromRoot_def
  getXLeftCode_def getXRightCode_def getYLeftCode_def getYRightCode_def getZLeftCode_def
  getZRightCode_def dist2_def getNeighbors_def locatePointNode_def computeCode_def
  traverseToLevel.simps explore.simps

lemmas model_defs =
  initialize_def setDepth_def new_Octree_def new_Sample_def addPoint_def locCode_def
  to_uint_def pow2_def new_OctreeNode_def setLoc_def Let_def addPoint_loop.simps
  getChild_def setChild_def initializeChild_def node_addPoint_def

lemma replicate8: "replicate 8 x = [x, x, x, x, x, x, x, x]"
  by (simp add: numeral_eq_Suc)

lemma ex_built: "addPoints (initialize (setDepth new_Octree 2) \<lparr>m_x = 0, m_y = 0, m_z = 0\<rparr> 4)
    ex_samples = Inr ex_built"
  by (simp add: ex_defs model_defs replicate8)

lemma ex_subnodes:
  "subnodes (m_root ex_built) = [ex_root, ex_cell0, ex_leaf0, ex_cell6, ex_leaf1]"
  by (simp add: ex_defs subnodes.simps replicate8)

definition ex_it0 :: OctreeIterator where
  "ex_it0 = snd (it_setDepth ex_built (new_OctreeIterator ex_built) 0)"

lemma ex_build: "build 2 \<lparr>m_x = 0, m_y = 0, m_z = 0\<rparr> 4 ex_samples = Inr ex_built"
  unfolding build_def by (rule ex_built)

lemma ex_in_box: "\<forall>p \<in> set ex_samples. in_box \<lparr>m_x = 0, m_y = 0, m_z = 0\<rparr> 4 p"
  by (simp add: ex_samples_def in_box_def new_Sample_def)

section \<open>Two leaves in one bucket\<close>

text \<open>
  An octree of depth 2 over the cube of side 4 at the origin with the samples
  \<open>(0.5, 0.5, 0.5)\<close> and \<open>(2.5, 0.5, 0.5)\<close>: their leaves are both the child 0 of their
  parent, and so are in the same bucket.
\<close>

definition c9_samples :: "Sample list" where
  "c9_samples = [new_Sample 0.5 0.5 0.5, new_Sample 2.5 0.5 0.5]"

definition c9_leaf0 :: OctreeNode where
  "c9_leaf0 = OctreeNode \<lparr>m_x = 0, m_y = 0, m_z = 0\<rparr> 1 0 0 0 0 (Some 0) 1 (replicate 8 None) [0]"

definition c9_leaf1 :: OctreeNode where
  "c9_leaf1 = OctreeNode \<lparr>m_x = 2, m_y = 0, m_z = 0\<rparr> 1 0 2 0 0 (Some 0) 1 (replicate 8 None) [1]"

definition c9_cell0 :: OctreeNode where
  "c9_cell0 = OctreeNode \<lparr>m_x = 0, m_y = 0, m_z = 0\<rparr> 2 1 0 0 0 (Some 0) 0
     [Some c9_leaf0, None, None, None, None, None, None, None] []"

definition c9_cell4 :: OctreeNode where
  "c9_cell4 = OctreeNode \<lparr>m_x = 2, m_y = 0, m_z = 0\<rparr> 2 1 2 0 0 (Some 4) 0
     [Some c9_leaf1, None, None, None, None, None, None, None] []"

definition c9_built :: Octree where
  "c9_built =
     \<lparr>m_depth = 2, m_npoints = 2, m_origin = \<lparr>m_x = 0, m_y = 0, m_z = 0\<rparr>, m_size = 4,
      m_binsize = 4,
      m_root = OctreeNode \<lparr>m_x = 0, m_y = 0, m_z = 0\<rparr> 4 2 0 0 0 None 0
        [Some c9_cell0, None, None, None, Some c9_cell4, None, None, None] [],
      store = c9_samples\<rparr>"

definition c9_buckets :: "OctreeNode list list" where
  "c9_buckets = [[c9_leaf1, c9_leaf0], [], [], [], [], [], [], []]"

lemmas c9_defs = c9_samples_def c9_leaf0_def c9_leaf1_def c9_cell0_def c9_cell4_def c9_built_def
  c9_buckets_def

lemma c9_build:
  "addPoints (initialize (setDepth new_Octree 2) \<lparr>m_x = 0, m_y = 0, m_z = 0\<rparr> 4) c9_samples
     = Inr c9_built"
  by (simp add: c9_defs model_defs replicate8)

lemma c9_nodes: "getNodes_buckets 0 (m_root c9_built) [] = Inr c9_buckets"
  by (simp add: c9_defs getNodes_buckets_def getNodes.simps getChild_def push_bucket_def replicate8)

section \<open>Two samples closer than the radius in an octree of depth 0\<close>

text \<open>
  The samples \<open>(0, 0, 0)\<close> and \<open>(0.9, 0, 0)\<close> and the radius 1, in the octree that
  \<^verbatim>\<open>readAndSortPoints\<close> builds for them: the extent is \<open>1.1 * 0.9\<close>, the depth
  \<open>ceil (log2 0.99) = 0\<close>, the size \<open>2 ^ 0 * 1\<close> and the margin \<open>0.005\<close>. The dart thrower
  computes the depth \<open>0 - floor (log2 (1 / 3.15)) = 2\<close> for its cells; the tree has no node
  of depth 2, so no cell is processed.
\<close>

definition c1_samples :: "Sample list" where
  "c1_samples = [new_Sample 0 0 0, new_Sample (9/10) 0 0]"

definition c1_origin :: Point where
  "c1_origin = \<lparr>m_x = - (1/200), m_y = - (1/200), m_z = - (1/200)\<rparr>"

definition c1_built :: Octree where
  "c1_built =
     \<lparr>m_depth = 0, m_npoints = 2, m_origin = c1_origin, m_size = 1, m_binsize = 1,
      m_root = OctreeNode c1_origin 1 0 0 0 0 None 2 (replicate 8 None) [0, 1],
      store = c1_samples\<rparr>"

definition c1_sel :: SampleSelection where
  "c1_sel = \<lparr>s_radius = 1, s_sqradius = 1, m_nselected = 0, m_selected_samples = []\<rparr>"

lemmas c1_defs = c1_samples_def c1_origin_def c1_built_def c1_sel_def

lemma c1_build:
  "addPoints (initialize (setDepth new_Octree 0) c1_origin 1) c1_samples = Inr c1_built"
  by (simp add: c1_defs model_defs replicate8)

lemma c1_new_sel:
  "new_SampleSelection 1 c1_built (new_OctreeIterator c1_built)
     = Inr (c1_sel, new_OctreeIterator c1_built)"
  by (simp add: c1_defs new_SampleSelection_def setR_def)

lemma c1_depth: "depth_for c1_built (1.5 * (2.1 * s_radius c1_sel)) = Some 2"
  by (simp add: c1_defs depth_for_def floor_log2_c1 to_uint_def)

lemma c1_nodes: "getNodes_buckets 2 (m_root c1_built) [] = Inr (replicate 8 [])"
  by (simp add: c1_defs getNodes_buckets_def getNodes.simps getChild_def)

lemma c1_run: "performDartThrowingSelection c1_built c1_sel rnd = Inr (c1_built, c1_sel)"
  unfolding performDartThrowingSelection_def Let_def c1_depth
  by (simp add: c1_nodes dart_bucket_def dart_cells_def replicate8 enumerate_simps) (simp add: c1_sel_def)


section \<open>Two identical samples\<close>

text \<open>
  Two samples at the origin and the radius \<open>0.1\<close>, in an octree of depth 3 over the cube of
  side \<open>0.8\<close> centred at the origin (leaves of side \<open>0.1\<close>). The active depth is 1 and the
  dart thrower works on the cells of depth 2.
\<close>

definition c4_origin :: Point where
  "c4_origin = \<lparr>m_x = - (2/5), m_y = - (2/5), m_z = - (2/5)\<rparr>"

definition c4_samples :: "Sample list" where
  "c4_samples = [new_Sample 0 0 0, new_Sample 0 0 0]"

definition c4_leaf :: OctreeNode where
  "c4_leaf = OctreeNode \<lparr>m_x = 0, m_y = 0, m_z = 0\<rparr> (1/10) 0 4 4 4 (Some 0) 2
     (replicate 8 None) [0, 1]"

definition c4_cell1 :: OctreeNode where
  "c4_cell1 = OctreeNode \<lparr>m_x = 0, m_y = 0, m_z = 0\<rparr> (1/5) 1 4 4 4 (Some 0) 0
     [Some c4_leaf, None, None, None, None, None, None, None] []"

definition c4_cell2 :: OctreeNode where
  "c4_cell2 = OctreeNode \<lparr>m_x = 0, m_y = 0, m_z = 0\<rparr> (2/5) 2 4 4 4 (Some 7) 0
     [Some c4_cell1, None, None, None, None, None, None, None] []"

definition c4_root :: OctreeNode where
  "c4_root = OctreeNode c4_origin (4/5) 3 0 0 0 None 0
     [None, None, None, None, None, None, None, Some c4_cell2] []"

definition c4_built :: Octree where
  "c4_built =
     \<lparr>m_depth = 3, m_npoints = 2, m_origin = c4_origin, m_size = 4/5, m_binsize = 8,
      m_root = c4_root, store = c4_samples\<rparr>"

definition c4_it :: OctreeIterator where
  "c4_it = \<lparr>m_activeDepth = 1, m_radius = 1/10, m_sqradius = 1/100\<rparr>"

definition c4_sel :: SampleSelection where
  "c4_sel = \<lparr>s_radius = 1/10, s_sqradius = 1/100, m_nselected = 0, m_selected_samples = []\<rparr>"

lemmas c4_defs = c4_origin_def c4_samples_def c4_leaf_def c4_cell1_def c4_cell2_def c4_root_def
  c4_built_def c4_it_def c4_sel_def

lemma c4_build:
  "addPoints (initialize (setDepth new_Octree 3) c4_origin (4/5)) c4_samples = Inr c4_built"
  by (simp add: c4_defs model_defs replicate8)

lemma floor_log2_4: "floor_log2 4 = Some 2"
  by (rule floor_log2_eqI) simp_all

lemma c4_new_sel:
  "new_SampleSelection (1/10) c4_built (new_OctreeIterator c4_built) = Inr (c4_sel, c4_it)"
  by (simp add: c4_defs new_SampleSelection_def setR_def depth_for_def floor_log2_4 to_uint_def
      new_OctreeIterator_def pow2_def)

lemmas select_defs =
  performSelection_def performSelection_cell.simps performSelection_par.simps select_sample_def
  cover_neighbor_def

lemma c4_greedy:
  "performSelection c4_built c4_it c4_sel
     = (c4_built\<lparr>store := [(new_Sample 0 0 0)\<lparr>m_selected := False\<rparr>,
                              (new_Sample 0 0 0)\<lparr>m_selected := False\<rparr>]\<rparr>, c4_sel)"
  by (simp add: c4_defs select_defs query_defs new_Sample_def getChild_def pow2_def Let_def)

lemma floor_log2_c4: "floor_log2 (160/63) = Some 1"
  by (rule floor_log2_eqI) simp_all

lemma c4_depth: "depth_for c4_built (1.5 * (2.1 * s_radius c4_sel)) = Some 2"
  by (simp add: c4_defs depth_for_def floor_log2_c4 to_uint_def)

lemma c4_nodes:
  "getNodes_buckets 2 (m_root c4_built) [] = Inr [[], [], [], [], [], [], [], [c4_cell2]]"
  by (simp add: c4_defs getNodes_buckets_def getNodes.simps getChild_def push_bucket_def replicate8)

lemma c4_setR: "setR c4_built (new_OctreeIterator c4_built) (1/10) = Inr (True, c4_it)"
  by (simp add: c4_defs setR_def depth_for_def floor_log2_4 to_uint_def
      new_OctreeIterator_def pow2_def)

lemma c4_leaves: "getNodes 0 c4_cell2 [] = [c4_leaf]"
  by (simp add: c4_defs getNodes.simps getChild_def)

lemma c4_all: "uncovered_samples (store c4_built) [c4_leaf] = [0, 1]"
  by (simp add: c4_defs uncovered_samples_def new_Sample_def insort_insert_key_def)

definition c4_result :: "nat \<Rightarrow> Sample list" where
  "c4_result s =
     [\<lparr>m_x = 0, m_y = 0, m_z = 0, m_selected = (s = 0), m_covered = True, m_ncovered = 1\<rparr>,
      \<lparr>m_x = 0, m_y = 0, m_z = 0, m_selected = (s = 1), m_covered = True, m_ncovered = 1\<rparr>]"

lemma c4_loop:
  assumes "s = rnd 0 mod 2"
  shows "dart_loop c4_built c4_it rnd 0 [0, 1] 2 [] = Inr (c4_built\<lparr>store := c4_result s\<rparr>, [s])"
proof (cases "rnd 0 mod 2 = 0")
  case True
  then show ?thesis
    using assms
    by (simp add: c4_defs dart_loop.simps query_defs new_Sample_def getChild_def pow2_def Let_def
        to_uint_def cover_neighbor_def c4_result_def)
next
  case False
  then have "rnd 0 mod 2 = 1"
    by presburger
  then show ?thesis
    using assms
    by (simp add: c4_defs dart_loop.simps query_defs new_Sample_def getChild_def pow2_def Let_def
        to_uint_def cover_neighbor_def c4_result_def)
qed

lemma c4_cell:
  "performDartThrowingSelection_cell c4_built (1/10) rnd c4_cell2
     = Inr (c4_built\<lparr>store := c4_result (rnd 0 mod 2)\<rparr>, [rnd 0 mod 2])"
proof -
  have len: "length [0::nat, 1] = 2"
    by simp
  show ?thesis
    unfolding performDartThrowingSelection_cell_def Let_def c4_leaves c4_setR c4_all len
    by (simp only: c4_loop [OF refl] sum.case prod.case)
qed

lemma c4_dart:
  "performDartThrowingSelection c4_built c4_sel rnd
     = Inr (c4_built\<lparr>store := c4_result (rnd 7 0 0 mod 2)\<rparr>,
            c4_sel\<lparr>m_selected_samples := [rnd 7 0 0 mod 2], m_nselected := 1\<rparr>)"
  unfolding performDartThrowingSelection_def Let_def c4_depth
  by (simp add: c4_nodes dart_bucket_def dart_cells_def c4_cell) (simp add: c4_sel_def c4_cell)


section \<open>With exact arithmetic\<close>

text \<open>
  What the algorithms guarantee if every operation on doubles gives its exact result, in
  an octree of depth \<open>D < 32\<close> and positive size built from samples inside the bounding cube.
  At the active depth 0, the depth of the leaves, \<^verbatim>\<open>locatePointNode\<close> returns for every
  inserted sample a leaf whose list of points holds the copy of that sample.
\<close>

lemma exact_locatePointNode_roundtrip:
  assumes "D < 32" and "0 < sz" and "\<forall>p \<in> set pts. in_box origin sz p"
    and "build D origin sz pts = Inr oc" and "m_activeDepth it = 0" and "i < length pts"
  shows "\<exists>leaf. locatePointNode oc it (pts ! i) = Inr leaf \<and> getDepth leaf = 0
    \<and> i \<in> set (m_points leaf) \<and> store oc ! i = pts ! i"
proof -
  have inv: "octree_inv oc" and st: "store oc = pts"
    using build_inv [OF assms(1,2,3)] assms(4) by auto
  have i: "i < length (store oc)"
    using assms(6) st by simp
  obtain cx cy cz where c: "code_rel oc i (cx, cy, cz)"
    "locCodes oc (store oc ! i) = Some (cx, cy, cz)"
    using octree_inv_code [OF inv i] by blast
  let ?leaf = "traverseFromRoot oc cx cy cz 0"
  have f: "getDepth ?leaf = 0 \<and> i \<in> addrs ?leaf"
    using traverseFromRoot_finds [OF inv i c(1), of 0 cx cy cz] by simp
  have "locatePointNode oc it (pts ! i) = Inr ?leaf"
    using c(2) by (simp add: locatePointNode_def computeCode_locCodes st assms(5))
  then show ?thesis
    using f st by (auto simp: addrs_leaf)
qed

text \<open>
  With the radius \<open>r\<close> set by an accepted \<^verbatim>\<open>setR(r)\<close>, for every query point \<open>q\<close> inside the
  bounding cube and every stored sample at Euclidean distance below \<open>r\<close> from \<open>q\<close>, the call
  \<^verbatim>\<open>getNeighbors(q, out)\<close> returns and appends the address of the sample to \<open>out\<close>: the
  cells of the searched level are at least two radii wide, and the tests on \<open>q - r\<close> and
  \<open>q + r\<close> add the code of every neighbouring cell that the ball reaches.
\<close>

lemma exact_getNeighbors_complete:
  assumes "D < 32" and "0 < sz" and "\<forall>p \<in> set pts. in_box origin sz p"
    and "build D origin sz pts = Inr oc"
    and "setR oc it0 r = Inr (True, it)"
    and "in_box origin sz q"
    and "a < length pts" and "sqrt (dist2 q (pts ! a)) < r"
  shows "\<exists>ys. getNeighbors oc it q ns = Inr (ns @ ys) \<and> a \<in> set ys \<and> store oc ! a = pts ! a"
proof -
  have inv: "octree_inv oc" and st: "store oc = pts" and md: "m_depth oc = D"
    and mo: "m_origin oc = origin" and ms: "m_size oc = sz"
    using build_inv [OF assms(1,2,3)] assms(4) by auto
  have T: "tree_inv D origin sz (code_rel oc) (m_root oc)" and dr: "getDepth (m_root oc) = D"
    and bs: "m_binsize oc = of_nat (pow2 D)"
    using inv by (simp_all add: octree_inv_def md mo ms)
  have a: "a < length (store oc)"
    using assms(7) st by simp
  note sr = setR_side [OF assms(5), unfolded ms md, OF assms(2)]
  have r: "0 < r"
    by (rule sr(1))
  have nn: "0 \<le> dist2 q (pts ! a)"
    by (simp add: dist2_def)
  then have "dist2 q (pts ! a) = sqrt (dist2 q (pts ! a)) * sqrt (dist2 q (pts ! a))"
    by simp
  also have "\<dots> < r * r"
    using assms(8) nn by (intro mult_strict_mono') simp_all
  finally have d2: "dist2 q (pts ! a) < r * r" .
  note near = dist2_axes [OF d2 r]
  have "inside_cube oc q"
    using assms(6) by (simp add: inside_cube_def in_box_def mo ms)
  then obtain qx qy qz where qc: "locCodes oc q = Some (qx, qy, qz)"
    "unat qx < 2 ^ D" "unat qy < 2 ^ D" "unat qz < 2 ^ D"
    "int (unat qx) = slab oc (m_x q) (m_x origin)"
    "int (unat qy) = slab oc (m_y q) (m_y origin)"
    "int (unat qz) = slab oc (m_z q) (m_z origin)"
    using locCodes_inside [of oc q] assms(1,2) bs unfolding md mo ms by blast
  define N where "N = traverseFromRoot oc qx qy qz (m_activeDepth it)"
  define s where "s = getDepth N"
  have loc: "locatePointNode oc it q = Inr N"
    by (simp add: locatePointNode_def computeCode_locCodes qc(1) N_def)
  have rp: "on_path (m_root oc) qx qy qz"
    using root_on_path [OF inv] qc(2,3,4) md by simp
  have dl: "getDepth (m_root oc) = 0 \<or> getDepth (m_root oc) = Suc (getDepth (m_root oc) - 1)"
    by (cases "getDepth (m_root oc)") simp_all
  have TN: "tree_inv D origin sz (code_rel oc) N"
    unfolding N_def traverseFromRoot_def by (rule traverse_tree_inv [OF T])
  have pN: "on_path N qx qy qz"
    and dN: "m_activeDepth it \<le> getDepth N \<or> N = m_root oc"
    using traverse_on_path [OF T rp dl, of "m_activeDepth it"]
    unfolding N_def traverseFromRoot_def by simp_all
  have cN: "cell_ok D origin sz (code_rel oc) N"
    using TN by (subst (asm) tree_inv_unfold) (simp add: node_ok_def)
  have sD: "s \<le> D"
    and ax: "axis_ok D (m_x origin) sz s (getXLoc N) (m_x (getOrigin N))"
      "axis_ok D (m_y origin) sz s (getYLoc N) (m_y (getOrigin N))"
      "axis_ok D (m_z origin) sz s (getZLoc N) (m_z (getOrigin N))"
    and sN: "getSize N = sz / 2 ^ (D - s)"
    using cN by (simp_all add: cell_ok_def s_def)
  have side: "2 * r \<le> sz / 2 ^ (D - s) \<or> s = D"
    using dN sr(4) [of s] sD dr by (auto simp: s_def)
  have sl: "search_level it N = s"
    by (simp add: search_level_def s_def)
  obtain ux uy uz where uc: "code_rel oc a (ux, uy, uz)"
    "unat ux < 2 ^ D" "unat uy < 2 ^ D" "unat uz < 2 ^ D"
    "int (unat ux) = slab oc (m_x (pts ! a)) (m_x origin)"
    "int (unat uy) = slab oc (m_y (pts ! a)) (m_y origin)"
    "int (unat uz) = slab oc (m_z (pts ! a)) (m_z origin)"
    using octree_inv_code [OF inv a] unfolding md mo st by metis
  note sb = slab_def [of oc, unfolded ms md]
  obtain xi where xi: "xi \<in> set (axis_locs (m_x q) r (m_x (getOrigin N)) (sz / 2 ^ (D - s)) (m_x origin) sz
      (getXLoc N) (getXLoc N - 1) (getXLoc N + of_nat (pow2 s)))" "unat xi div 2 ^ s = unat ux div 2 ^ s"
    using axis_locs_reach [OF assms(2,1) sD r ax(1) qc(5) [unfolded sb] _ uc(5) [unfolded sb] uc(2) near(1) side]
      pN unfolding on_path_def s_def by blast
  obtain yi where yi: "yi \<in> set (axis_locs (m_y q) r (m_y (getOrigin N)) (sz / 2 ^ (D - s)) (m_y origin) sz
      (getYLoc N) (getYLoc N - 1) (getYLoc N + of_nat (pow2 s)))" "unat yi div 2 ^ s = unat uy div 2 ^ s"
    using axis_locs_reach [OF assms(2,1) sD r ax(2) qc(6) [unfolded sb] _ uc(6) [unfolded sb] uc(3) near(2) side]
      pN unfolding on_path_def s_def by blast
  obtain zi where zi: "zi \<in> set (axis_locs (m_z q) r (m_z (getOrigin N)) (sz / 2 ^ (D - s)) (m_z origin) sz
      (getZLoc N) (getZLoc N - 1) (getZLoc N + of_nat (pow2 s)))" "unat zi div 2 ^ s = unat uz div 2 ^ s"
    using axis_locs_reach [OF assms(2,1) sD r ax(3) qc(7) [unfolded sb] _ uc(7) [unfolded sb] uc(4) near(3) side]
      pN unfolding on_path_def s_def by blast
  define n' where "n' = traverseFromRoot oc xi yi zi s"
  have f: "getDepth n' = s" "a \<in> addrs n'"
    using traverseFromRoot_finds [OF inv a uc(1) _ xi(2) yi(2) zi(2)] sD
    unfolding md n'_def by simp_all
  have Tn: "tree_inv D origin sz (code_rel oc) n'"
    unfolding n'_def traverseFromRoot_def by (rule traverse_tree_inv [OF T])
  have mem: "n' \<in> set (explored_cells oc it q N s)"
    unfolding n'_def
    by (rule explored_cells_mem)
       (simp_all add: sr(2) mo ms sN getXLeftCode_def getXRightCode_def getYLeftCode_def
          getYRightCode_def getZLeftCode_def getZRightCode_def s_def [symmetric] xi(1) yi(1) zi(1)
          f(1) [unfolded n'_def])
  have "dist2 q (store oc ! a) < m_sqradius it"
    using d2 by (simp add: sr(3) st)
  then have hit: "\<exists>ys. explore it (store oc) n' q ms = ms @ ys \<and> a \<in> set ys" for ms
    by (rule explore_complete [OF Tn f(2)])
  have "\<exists>ys. getNeighbors_node oc it q N ns = ns @ ys \<and> a \<in> set ys"
    unfolding getNeighbors_node_def sl
    by (rule fold_appends_mem [where x = n']) (rule explore_appends_only, rule hit, rule mem)
  then show ?thesis
    by (simp add: getNeighbors_def loc st)
qed


section \<open>Double-precision arithmetic\<close>

text \<open>
  The functions of the sources that compute with \<^verbatim>\<open>double\<close>, with every operation rounded
  as the program rounds it: each \<^verbatim>\<open>+\<close>, \<^verbatim>\<open>-\<close>, \<^verbatim>\<open>*\<close> and \<^verbatim>\<open>/\<close> of two doubles gives the
  double nearest to the exact result, ties to the even significand (IEEE 754 binary64,
  evaluated in double precision without contraction). The names are those of the
  functions above with the suffix \<open>_fp\<close>; the functions that work on integers only
  (\<^verbatim>\<open>getChild\<close>, \<^verbatim>\<open>traverseToLevel\<close>, the left and right codes, \<^verbatim>\<open>getNodes\<close>) are shared.

  \<^item> \<open>fl x\<close> is the double nearest to the real \<open>x\<close>: 53 significant bits, gradual underflow
    below \<open>2 ^ -1022\<close>. Results of magnitude \<open>2 ^ 1024\<close> and above, which the machine
    replaces by an infinity, are not modelled; no value of the runs below comes near.
  \<^item> The conversion of an \<^verbatim>\<open>unsigned int\<close> to \<^verbatim>\<open>double\<close> is exact.
  \<^item> \<^verbatim>\<open>log2\<close> of the C library is taken to return the double nearest to the logarithm.
  \<^item> The coordinates of a point, the size of the octree and a radius are doubles when
    the program runs; the functions take any real and round the results of the
    operations only.
  \<^item> The shifts \<^verbatim>\<open>1<<l\<close> of \<^verbatim>\<open>addPoint\<close> and \<^verbatim>\<open>traverseToLevel\<close> are defined in C++ for
    \<open>l < 32\<close> only; the octrees of the statements of this part have a depth below 32.
\<close>

definition round_even :: "real \<Rightarrow> int" where
  "round_even y =
     (let f = \<lfloor>y\<rfloor>; d = y - of_int f
      in if d < 1/2 then f else if 1/2 < d then f + 1 else if even f then f else f + 1)"

definition fl :: "real \<Rightarrow> real" where
  "fl x =
     (if x = 0 then 0
      else let e = max \<lfloor>log 2 \<bar>x\<bar>\<rfloor> (- 1022) - 52
           in of_int (round_even (x / 2 powr of_int e)) * 2 powr of_int e)"

subsection \<open>OctreeNode.h and Octree.h\<close>

text \<open>\<^verbatim>\<open>initializeChild(index, origin)\<close>: \<^verbatim>\<open>double size = m_size/2.0\<close>.\<close>

definition initializeChild_fp :: "OctreeNode \<Rightarrow> uint \<Rightarrow> Point \<Rightarrow> OctreeNode" where
  "initializeChild_fp node index origin =
     (let sz = fl (getSize node / 2);
          depth = getDepth node - 1
      in OctreeNode origin sz depth 0 0 0 (Some index) 0 (replicate 8 None) [])"

text \<open>
  The locational code of a coordinate in \<^verbatim>\<open>addPoint\<close>:
  \<^verbatim>\<open>(unsigned int)((v - origin) / m_size * m_binsize)\<close>, three rounded operations and the
  truncating conversion.
\<close>

definition locCode_fp :: "Octree \<Rightarrow> real \<Rightarrow> real \<Rightarrow> uint option" where
  "locCode_fp oc v og =
     (if m_size oc = 0 then None
      else to_uint (fl (fl (fl (v - og) / m_size oc) * real (unat (m_binsize oc)))))"

text \<open>
  The loop of \<^verbatim>\<open>addPoint\<close>. The size of a new child is \<^verbatim>\<open>node->getSize()/2.0\<close> and each
  coordinate of its origin is \<^verbatim>\<open>origin.x() + x * childSize\<close>, rounded after the product and
  after the sum.
\<close>

function addPoint_loop_fp ::
  "OctreeNode \<Rightarrow> nat \<Rightarrow> uint \<Rightarrow> uint \<Rightarrow> uint \<Rightarrow> nat \<Rightarrow> OctreeNode"
where
  "addPoint_loop_fp node l codx cody codz a =
     (if getDepth node \<noteq> 0 then
        let childBranchBit = push_bit l (1 :: uint);
            x = drop_bit l (codx AND childBranchBit);
            y = drop_bit l (cody AND childBranchBit);
            z = drop_bit l (codz AND childBranchBit);
            childIndex = push_bit 2 x + push_bit 1 y + z
        in (case getChild node childIndex of
              None \<Rightarrow>
                let childSize = fl (getSize node / 2);
                    childDepth = getDepth node - 1;
                    origin = getOrigin node;
                    childOrigin = \<lparr>m_x = fl (m_x origin + fl (real (unat x) * childSize)),
                                   m_y = fl (m_y origin + fl (real (unat y) * childSize)),
                                   m_z = fl (m_z origin + fl (real (unat z) * childSize))\<rparr>;
                    child = initializeChild_fp node childIndex childOrigin;
                    child = setLoc child
                              (getXLoc node + push_bit childDepth x)
                              (getYLoc node + push_bit childDepth y)
                              (getZLoc node + push_bit childDepth z)
                in setChild node childIndex (addPoint_loop_fp child (l - 1) codx cody codz a)
            | Some child \<Rightarrow>
                setChild node childIndex (addPoint_loop_fp child (l - 1) codx cody codz a))
      else node_addPoint node a)"
  by pat_completeness auto
termination
proof (relation "measures [\<lambda>(node, l, cx, cy, cz, a). length (subnodes node),
                           \<lambda>(node, l, cx, cy, cz, a). getDepth node]", goal_cases)
  case 1
  show ?case by simp
next
  case (2 node l codx cody codz a cbb x y z ci cs cd og co child child')
  have "length (subnodes child') = 1"
    unfolding 2 initializeChild_fp_def setLoc_def Let_def by (simp add: subnodes.simps)
  moreover have "getDepth child' < getDepth node"
    using 2(1) unfolding 2 initializeChild_fp_def setLoc_def Let_def by simp
  moreover have "1 \<le> length (subnodes node)"
    by (subst subnodes.simps) simp
  ultimately show ?case by (auto simp del: subnodes.simps)
next
  case 3
  then show ?case by (auto simp del: subnodes.simps dest: getChild_subnodes_less)
qed

definition addPoint_fp :: "Octree \<Rightarrow> Sample \<Rightarrow> fault + Octree" where
  "addPoint_fp oc pt =
     (case (locCode_fp oc (m_x pt) (m_x (m_origin oc)),
            locCode_fp oc (m_y pt) (m_y (m_origin oc)),
            locCode_fp oc (m_z pt) (m_z (m_origin oc))) of
        (Some codx, Some cody, Some codz) \<Rightarrow>
          let node = m_root oc;
              l = getDepth node - 1
          in Inr (oc\<lparr>m_root := addPoint_loop_fp node l codx cody codz (length (store oc)),
                     store := store oc @ [pt],
                     m_npoints := m_npoints oc + 1\<rparr>)
      | _ \<Rightarrow> Inl Undefined_conversion)"

fun addPoints_fp :: "Octree \<Rightarrow> Sample list \<Rightarrow> fault + Octree" where
  "addPoints_fp oc [] = Inr oc"
| "addPoints_fp oc (pt # pts) =
     (case addPoint_fp oc pt of Inl e \<Rightarrow> Inl e | Inr oc' \<Rightarrow> addPoints_fp oc' pts)"

definition build_fp :: "nat \<Rightarrow> Point \<Rightarrow> real \<Rightarrow> Sample list \<Rightarrow> fault + Octree" where
  "build_fp D origin sz pts = addPoints_fp (initialize (setDepth new_Octree D) origin sz) pts"

subsection \<open>OctreeIterator.h\<close>

text \<open>
  \<^verbatim>\<open>TOctreeIterator(octree)\<close> and \<^verbatim>\<open>setDepth(depth)\<close>:
  \<^verbatim>\<open>m_radius = getSize()/((double)pow2(depth))\<close> and \<^verbatim>\<open>m_sqradius = m_radius * m_radius\<close>.
\<close>

definition new_OctreeIterator_fp :: "Octree \<Rightarrow> OctreeIterator" where
  "new_OctreeIterator_fp oc =
     (let r = fl (m_size oc / real (pow2 (m_depth oc)))
      in \<lparr>m_activeDepth = m_depth oc, m_radius = r, m_sqradius = fl (r * r)\<rparr>)"

definition it_setDepth_fp :: "Octree \<Rightarrow> OctreeIterator \<Rightarrow> nat \<Rightarrow> bool \<times> OctreeIterator" where
  "it_setDepth_fp oc it depth =
     (if depth \<le> m_depth oc then
        let r = fl (m_size oc / real (pow2 depth))
        in (True, it\<lparr>m_activeDepth := depth, m_radius := r, m_sqradius := fl (r * r)\<rparr>)
      else (False, it))"

text \<open>
  \<^verbatim>\<open>floor(log2(v))\<close> of a double \<open>v\<close>, and the expression
  \<^verbatim>\<open>(unsigned int)(getDepth() - floor(log2(getSize() / den)))\<close> of \<^verbatim>\<open>setR\<close>, where \<open>den\<close> is
  the double \<^verbatim>\<open>2.0*m_radius\<close>. The quotient, the logarithm and the difference are rounded.
\<close>

definition floor_log2_fp :: "real \<Rightarrow> int option" where
  "floor_log2_fp v = (if 0 < v then Some \<lfloor>fl (log 2 v)\<rfloor> else None)"

definition depth_for_fp :: "Octree \<Rightarrow> real \<Rightarrow> nat option" where
  "depth_for_fp oc den =
     (if den = 0 then None
      else case floor_log2_fp (fl (m_size oc / den)) of
             None \<Rightarrow> None
           | Some f \<Rightarrow> map_option unat (to_uint (fl (real (m_depth oc) - real_of_int f))))"

text \<open>
  \<^verbatim>\<open>setR(radius)\<close>: the stored square is the rounded product \<^verbatim>\<open>m_radius * m_radius\<close>.
\<close>

definition setR_fp :: "Octree \<Rightarrow> OctreeIterator \<Rightarrow> real \<Rightarrow> fault + bool \<times> OctreeIterator" where
  "setR_fp oc it radius =
     (if radius < m_size oc then
        let it = it\<lparr>m_radius := radius, m_sqradius := fl (radius * radius)\<rparr>
        in (case depth_for_fp oc (fl (2 * m_radius it)) of
              None \<Rightarrow> Inl Undefined_conversion
            | Some d \<Rightarrow> Inr (True, it\<lparr>m_activeDepth := d\<rparr>))
      else Inr (False, it))"

text \<open>
  \<^verbatim>\<open>computeCode\<close>: \<^verbatim>\<open>multiplier = 1.0 / getSize() * getBinSize()\<close>, then
  \<^verbatim>\<open>(unsigned int)((v - origin) * multiplier)\<close>; and \<^verbatim>\<open>locatePointNode\<close>. The code of a
  coordinate is computed by other operations than in \<^verbatim>\<open>addPoint\<close>.
\<close>

definition computeCode_fp :: "Octree \<Rightarrow> 'a Point_scheme \<Rightarrow> (uint \<times> uint \<times> uint) option" where
  "computeCode_fp oc point =
     (if m_size oc = 0 then None
      else
        let multiplier = fl (fl (1 / m_size oc) * real (unat (m_binsize oc)))
        in (case (to_uint (fl (fl (m_x point - m_x (m_origin oc)) * multiplier)),
                  to_uint (fl (fl (m_y point - m_y (m_origin oc)) * multiplier)),
                  to_uint (fl (fl (m_z point - m_z (m_origin oc)) * multiplier))) of
              (Some codx, Some cody, Some codz) \<Rightarrow> Some (codx, cody, codz)
            | _ \<Rightarrow> None))"

definition locatePointNode_fp ::
  "Octree \<Rightarrow> OctreeIterator \<Rightarrow> 'a Point_scheme \<Rightarrow> fault + OctreeNode"
where
  "locatePointNode_fp oc it point =
     (case computeCode_fp oc point of
        None \<Rightarrow> Inl Undefined_conversion
      | Some (codx, cody, codz) \<Rightarrow> Inr (traverseFromRoot oc codx cody codz (m_activeDepth it)))"

text \<open>
  Modelled from the spec: \<^verbatim>\<open>dist2\<close> of the missing \<^verbatim>\<open>utilities.h\<close>, the squared Euclidean
  distance, here with the three differences, the three squares and the two sums (from
  left to right) rounded.
\<close>

definition dist2_fp :: "'a Point_scheme \<Rightarrow> 'b Point_scheme \<Rightarrow> real" where
  "dist2_fp q p =
     (let dx = fl (m_x q - m_x p);
          dy = fl (m_y q - m_y p);
          dz = fl (m_z q - m_z p)
      in fl (fl (fl (dx * dx) + fl (dy * dy)) + fl (dz * dz)))"

text \<open>\<^verbatim>\<open>explore\<close>, both overloads: the test is \<^verbatim>\<open>dist < m_sqradius\<close> on the computed doubles.\<close>

fun explore_fp ::
  "OctreeIterator \<Rightarrow> Sample list \<Rightarrow> OctreeNode \<Rightarrow> 'a Point_scheme \<Rightarrow> nat list \<Rightarrow> nat list"
where
  "explore_fp it st node query_point neighbors =
     (if getDepth node \<noteq> 0 then
        fold (\<lambda>i ns. case getChild node i of
                       None \<Rightarrow> ns
                     | Some c \<Rightarrow> explore_fp it st c query_point ns)
          [0, 1, 2, 3, 4, 5, 6, 7] neighbors
      else if getNpts node \<noteq> 0 then
        fold (\<lambda>iter ns. let dist = dist2_fp query_point (st ! iter)
                        in if dist < m_sqradius it then ns @ [iter] else ns)
          (m_points node) neighbors
      else neighbors)"

fun explore_dist_fp ::
  "OctreeIterator \<Rightarrow> Sample list \<Rightarrow> OctreeNode \<Rightarrow> 'a Point_scheme \<Rightarrow>
     nat list \<times> real list \<Rightarrow> nat list \<times> real list"
where
  "explore_dist_fp it st node query_point nd =
     (if getDepth node \<noteq> 0 then
        fold (\<lambda>i nd. case getChild node i of
                       None \<Rightarrow> nd
                     | Some c \<Rightarrow> explore_dist_fp it st c query_point nd)
          [0, 1, 2, 3, 4, 5, 6, 7] nd
      else if getNpts node \<noteq> 0 then
        fold (\<lambda>iter (neighbors, distances).
                let dist = dist2_fp query_point (st ! iter)
                in if dist < m_sqradius it then (neighbors @ [iter], distances @ [dist])
                   else (neighbors, distances))
          (m_points node) nd
      else nd)"

text \<open>
  The candidate codes of one axis in \<^verbatim>\<open>getNeighbors\<close>. The differences and sums
  \<^verbatim>\<open>query.x() - m_radius\<close>, \<^verbatim>\<open>query.x() + m_radius\<close>, \<^verbatim>\<open>node_origin.x() + node_size\<close> and
  \<^verbatim>\<open>octree_origin.x() + octree_size\<close> are rounded before they are compared.
\<close>

definition axis_locs_fp ::
  "real \<Rightarrow> real \<Rightarrow> real \<Rightarrow> real \<Rightarrow> real \<Rightarrow> real \<Rightarrow> uint \<Rightarrow> uint \<Rightarrow> uint \<Rightarrow> uint list"
where
  "axis_locs_fp q r node_origin node_size octree_origin octree_size loc left right =
     [loc]
     @ (if fl (q - r) < node_origin \<and> fl (q - r) > octree_origin then [left] else [])
     @ (if fl (q + r) > fl (node_origin + node_size)
           \<and> fl (q + r) < fl (octree_origin + octree_size)
        then [right] else [])"

definition explored_cells_fp ::
  "Octree \<Rightarrow> OctreeIterator \<Rightarrow> 'a Point_scheme \<Rightarrow> OctreeNode \<Rightarrow> nat \<Rightarrow> OctreeNode list"
where
  "explored_cells_fp oc it query query_node s =
     (let octree_origin = m_origin oc;
          node_origin = getOrigin query_node;
          node_size = getSize query_node;
          octree_size = m_size oc;
          xloc = axis_locs_fp (m_x query) (m_radius it) (m_x node_origin) node_size
                   (m_x octree_origin) octree_size
                   (getXLoc query_node) (getXLeftCode query_node) (getXRightCode query_node);
          yloc = axis_locs_fp (m_y query) (m_radius it) (m_y node_origin) node_size
                   (m_y octree_origin) octree_size
                   (getYLoc query_node) (getYLeftCode query_node) (getYRightCode query_node);
          zloc = axis_locs_fp (m_z query) (m_radius it) (m_z node_origin) node_size
                   (m_z octree_origin) octree_size
                   (getZLoc query_node) (getZLeftCode query_node) (getZRightCode query_node)
      in concat (map (\<lambda>xi. concat (map (\<lambda>yi. concat (map (\<lambda>zi.
           let node = traverseFromRoot oc xi yi zi s
           in if getDepth node = s then [node] else []) zloc)) yloc)) xloc))"

text \<open>The four overloads of \<^verbatim>\<open>getNeighbors\<close>.\<close>

definition getNeighbors_node_fp ::
  "Octree \<Rightarrow> OctreeIterator \<Rightarrow> 'a Point_scheme \<Rightarrow> OctreeNode \<Rightarrow> nat list \<Rightarrow> nat list"
where
  "getNeighbors_node_fp oc it query query_node neighbors =
     fold (\<lambda>node ns. explore_fp it (store oc) node query ns)
       (explored_cells_fp oc it query query_node (search_level it query_node)) neighbors"

definition getNeighbors_node_dist_fp ::
  "Octree \<Rightarrow> OctreeIterator \<Rightarrow> 'a Point_scheme \<Rightarrow> OctreeNode \<Rightarrow>
     nat list \<times> real list \<Rightarrow> nat list \<times> real list"
where
  "getNeighbors_node_dist_fp oc it query query_node nd =
     fold (\<lambda>node nd. explore_dist_fp it (store oc) node query nd)
       (explored_cells_fp oc it query query_node (search_level it query_node)) nd"

definition getNeighbors_fp ::
  "Octree \<Rightarrow> OctreeIterator \<Rightarrow> 'a Point_scheme \<Rightarrow> nat list \<Rightarrow> fault + nat list"
where
  "getNeighbors_fp oc it query neighbors =
     (case locatePointNode_fp oc it query of
        Inl e \<Rightarrow> Inl e
      | Inr node \<Rightarrow> Inr (getNeighbors_node_fp oc it query node neighbors))"

definition getNeighbors_dist_fp ::
  "Octree \<Rightarrow> OctreeIterator \<Rightarrow> 'a Point_scheme \<Rightarrow> nat list \<times> real list \<Rightarrow>
     fault + nat list \<times> real list"
where
  "getNeighbors_dist_fp oc it query nd =
     (case locatePointNode_fp oc it query of
        Inl e \<Rightarrow> Inl e
      | Inr node \<Rightarrow> Inr (getNeighbors_node_dist_fp oc it query node nd))"

declare addPoint_loop_fp.simps [simp del]
declare explore_fp.simps [simp del]
declare explore_dist_fp.simps [simp del]

subsection \<open>evaluating and bounding the rounding\<close>

lemma fl_0 [simp]: "fl 0 = 0"
  by (simp add: fl_def)

lemma fl_eqI:
  assumes k: "k \<le> 1074" and lo: "2 ^ 52 \<le> \<bar>x\<bar> * 2 ^ k" and hi: "\<bar>x\<bar> * 2 ^ k < 2 ^ 53"
    and n: "round_even (x * 2 ^ k) = n"
  shows "fl x = of_int n / 2 ^ k"
proof -
  have x: "x \<noteq> 0"
    using lo by auto
  then have ax: "0 < \<bar>x\<bar>"
    by simp
  define e :: real where "e = 52 - real k"
  have p: "2 powr e = 2 ^ 52 / 2 ^ k" "2 powr (e + 1) = 2 ^ 53 / 2 ^ k"
    by (simp_all add: e_def powr_diff powr_realpow)
  have b: "2 powr e \<le> \<bar>x\<bar>" "\<bar>x\<bar> < 2 powr (e + 1)"
    unfolding p using lo hi by (simp_all add: field_simps)
  have "e \<le> log 2 \<bar>x\<bar>"
    using b(1) ax by (simp add: le_log_iff)
  moreover have "log 2 \<bar>x\<bar> < e + 1"
    using b(2) ax by (simp add: log_less_iff)
  moreover have "e = of_int (52 - int k)"
    by (simp add: e_def)
  ultimately have "\<lfloor>log 2 \<bar>x\<bar>\<rfloor> = 52 - int k"
    by (intro floor_unique) simp_all
  then have e: "max \<lfloor>log 2 \<bar>x\<bar>\<rfloor> (- 1022) - 52 = - int k"
    using k by simp
  have q: "(2::real) powr of_int (- int k) = 1 / 2 ^ k"
    by (simp add: powr_minus powr_realpow divide_inverse)
  show ?thesis
    unfolding fl_def Let_def e q using x n by simp
qed

lemma round_even_near: "\<bar>of_int (round_even y) - y\<bar> \<le> 1/2"
proof -
  have "of_int \<lfloor>y\<rfloor> \<le> y" "y < of_int \<lfloor>y\<rfloor> + 1"
    by linarith+
  then show ?thesis
    unfolding round_even_def Let_def by (auto simp: abs_le_iff)
qed

lemma round_even_of_int [simp]: "round_even (of_int n) = n"
  by (simp add: round_even_def)

lemma fl_error:
  assumes "1/8 \<le> \<bar>y\<bar>"
  shows "\<bar>fl y - y\<bar> \<le> \<bar>y\<bar> / 2 ^ 53"
proof -
  have y: "y \<noteq> 0" and ay: "0 < \<bar>y\<bar>"
    using assms by auto
  define e0 where "e0 = \<lfloor>log 2 \<bar>y\<bar>\<rfloor>"
  have "2 powr (- 3) \<le> \<bar>y\<bar>"
    using assms by (simp add: powr_minus)
  then have "- 3 \<le> log 2 \<bar>y\<bar>"
    using ay by (simp add: le_log_iff)
  then have "- 3 \<le> e0"
    unfolding e0_def by (simp add: le_floor_iff)
  then have m: "max e0 (- 1022) = e0"
    by simp
  define u :: real where "u = 2 powr of_int (e0 - 52)"
  have u: "0 < u"
    by (simp add: u_def)
  have "of_int e0 \<le> log 2 \<bar>y\<bar>"
    unfolding e0_def by simp
  then have "2 powr of_int e0 \<le> \<bar>y\<bar>"
    using ay by (simp add: le_log_iff)
  moreover have "u = 2 powr of_int e0 / 2 ^ 52"
    unfolding u_def by (simp add: powr_diff)
  ultimately have uy: "u / 2 \<le> \<bar>y\<bar> / 2 ^ 53"
    by simp
  have f: "fl y = of_int (round_even (y / u)) * u"
    using y by (simp add: fl_def Let_def e0_def [symmetric] m u_def)
  have "\<bar>of_int (round_even (y / u)) - y / u\<bar> * u \<le> 1/2 * u"
    using round_even_near [of "y / u"] u by (intro mult_right_mono) simp_all
  moreover have "(of_int (round_even (y / u)) - y / u) * u = of_int (round_even (y / u)) * u - y"
    using u by (simp add: field_simps)
  then have "\<bar>of_int (round_even (y / u)) - y / u\<bar> * u = \<bar>of_int (round_even (y / u)) * u - y\<bar>"
    using u by (metis abs_mult abs_of_pos)
  ultimately have "\<bar>fl y - y\<bar> \<le> u / 2"
    unfolding f by simp
  then show ?thesis
    using uy by linarith
qed

text \<open>
  The floor of the rounded logarithm of \<open>v\<close> is \<open>n\<close> when \<open>v\<close> is between \<open>2 ^ (n + 1/8)\<close> and
  \<open>2 ^ (n + 7/8)\<close>, written with eighth powers.
\<close>

lemma floor_fl_log2:
  assumes v: "0 < v" and lo: "2 * 2 ^ (8 * n) \<le> v ^ 8" and hi: "v ^ 8 \<le> 2 ^ (8 * n + 7)"
    and n: "n \<le> 1000"
  shows "\<lfloor>fl (log 2 v)\<rfloor> = int n"
proof -
  define y where "y = log 2 v"
  have v8: "0 < v ^ 8"
    using v by simp
  have "log 2 (v ^ 8) = 8 * y"
    using v by (simp add: y_def log_nat_power)
  moreover have "(2::real) powr real (8 * n + 1) = 2 ^ (8 * n + 1)"
    "(2::real) powr real (8 * n + 7) = 2 ^ (8 * n + 7)"
    by (rule powr_realpow, simp)+
  then have "2 powr real (8 * n + 1) \<le> v ^ 8" "v ^ 8 \<le> 2 powr real (8 * n + 7)"
    using lo hi by simp_all
  then have "real (8 * n + 1) \<le> log 2 (v ^ 8)" "log 2 (v ^ 8) \<le> real (8 * n + 7)"
    using v8 by (simp_all add: le_log_iff log_le_iff del: powr_realpow)
  ultimately have y: "real n + 1/8 \<le> y" "y \<le> real n + 7/8"
    by simp_all
  then have "1/8 \<le> \<bar>y\<bar>"
    by simp
  then have "\<bar>fl y - y\<bar> \<le> \<bar>y\<bar> / 2 ^ 53"
    by (rule fl_error)
  moreover have "\<bar>y\<bar> / 2 ^ 53 \<le> 1001 / 2 ^ 53"
    using y n by (intro divide_right_mono) simp_all
  ultimately have "\<bar>fl y - y\<bar> < 1/8"
    by simp
  then have "real n \<le> fl y" "fl y < real n + 1"
    using y by linarith+
  then have "\<lfloor>fl y\<rfloor> = int n"
    by (intro floor_unique) simp_all
  then show ?thesis
    by (simp add: y_def)
qed

lemma fl_of_int:
  assumes "\<bar>n\<bar> < 2 ^ 53"
  shows "fl (of_int n) = of_int n"
proof (cases "n = 0")
  case True
  then show ?thesis by simp
next
  case False
  define e0 where "e0 = \<lfloor>log 2 \<bar>real_of_int n\<bar>\<rfloor>"
  have an: "1 \<le> \<bar>real_of_int n\<bar>" "\<bar>real_of_int n\<bar> < 2 ^ 53"
    using False assms by (simp_all flip: of_int_abs)
  then have "0 \<le> log 2 \<bar>real_of_int n\<bar>" "log 2 \<bar>real_of_int n\<bar> < 53"
    by (simp_all add: log_less_iff powr_realpow)
  then have e: "0 \<le> e0" "e0 \<le> 52"
    unfolding e0_def by (simp_all add: floor_less_iff le_floor_iff)
  then have m: "max e0 (- 1022) = e0"
    by simp
  define j where "j = nat (52 - e0)"
  have rj: "real j = 52 - real_of_int e0"
    using e by (simp add: j_def)
  have "(2::real) powr (real_of_int e0 - 52) = 2 powr (- real j)"
    by (simp add: rj)
  also have "\<dots> = 1 / 2 powr real j"
    by (rule powr_minus_divide)
  also have "(2::real) powr real j = 2 ^ j"
    by (rule powr_realpow) simp
  finally have p: "(2::real) powr (real_of_int e0 - 52) = 1 / 2 ^ j" .
  have "real_of_int n / (1 / 2 ^ j) = of_int (n * 2 ^ j)"
    by simp
  then have "round_even (real_of_int n / (1 / 2 ^ j)) = n * 2 ^ j"
    by (simp only: round_even_of_int)
  then show ?thesis
    using False by (simp add: fl_def Let_def e0_def [symmetric] m p)
qed



section \<open>In double precision the neighbour query only appends, and only near samples\<close>

lemma explore_fp_appends:
  "\<exists>ys. explore_fp it st node q ns = ns @ ys \<and> (\<forall>a\<in>set ys. dist2_fp q (st ! a) < m_sqradius it)"
proof (induction it st node q ns rule: explore_fp.induct)
  case (1 it st node q ns)
  show ?case
  proof (cases "getDepth node \<noteq> 0")
    case True
    have "\<exists>ys. fold (\<lambda>i ns. case getChild node i of None \<Rightarrow> ns
                               | Some c \<Rightarrow> explore_fp it st c q ns) [0, 1, 2, 3, 4, 5, 6, 7] ns
            = ns @ ys \<and> (\<forall>a\<in>set ys. dist2_fp q (st ! a) < m_sqradius it)"
    proof (rule fold_appends)
      fix x :: uint and ns' :: "nat list"
      assume x: "x \<in> set [0, 1, 2, 3, 4, 5, 6, 7]"
      show "\<exists>ys. (case getChild node x of None \<Rightarrow> ns' | Some c \<Rightarrow> explore_fp it st c q ns') = ns' @ ys
                 \<and> (\<forall>a\<in>set ys. dist2_fp q (st ! a) < m_sqradius it)"
        using 1 [OF True x] by (cases "getChild node x") auto
    qed
    then show ?thesis
      using True by (subst explore_fp.simps) simp
  next
    case False
    have "\<exists>ys. fold (\<lambda>iter ns. let dist = dist2_fp q (st ! iter)
                        in if dist < m_sqradius it then ns @ [iter] else ns) (m_points node) ns
            = ns @ ys \<and> (\<forall>a\<in>set ys. dist2_fp q (st ! a) < m_sqradius it)"
      by (rule fold_appends) (auto simp: Let_def)
    then show ?thesis
      using False by (subst explore_fp.simps) auto
  qed
qed


lemma explore_dist_fp_appends:
  "\<exists>ys. explore_dist_fp it st node q nd
          = (fst nd @ ys, snd nd @ map (\<lambda>a. dist2_fp q (st ! a)) ys)
        \<and> (\<forall>a\<in>set ys. dist2_fp q (st ! a) < m_sqradius it)"
proof (induction it st node q nd rule: explore_dist_fp.induct)
  case (1 it st node q nd)
  show ?case
  proof (cases "getDepth node \<noteq> 0")
    case True
    have "\<exists>ys. fold (\<lambda>i nd. case getChild node i of None \<Rightarrow> nd
                               | Some c \<Rightarrow> explore_dist_fp it st c q nd) [0, 1, 2, 3, 4, 5, 6, 7] nd
            = (fst nd @ ys, snd nd @ map (\<lambda>a. dist2_fp q (st ! a)) ys)
          \<and> (\<forall>a\<in>set ys. dist2_fp q (st ! a) < m_sqradius it)"
    proof (rule fold_appends2)
      fix x :: uint and nd' :: "nat list \<times> real list"
      assume x: "x \<in> set [0, 1, 2, 3, 4, 5, 6, 7]"
      show "\<exists>ys. (case getChild node x of None \<Rightarrow> nd' | Some c \<Rightarrow> explore_dist_fp it st c q nd')
                   = (fst nd' @ ys, snd nd' @ map (\<lambda>a. dist2_fp q (st ! a)) ys)
                 \<and> (\<forall>a\<in>set ys. dist2_fp q (st ! a) < m_sqradius it)"
      proof (cases "getChild node x")
        case None
        then show ?thesis by (intro exI [of _ "[]"]) simp
      next
        case (Some c)
        then show ?thesis using 1 [OF True x Some] by simp
      qed
    qed
    then show ?thesis
      using True by (subst explore_dist_fp.simps) simp
  next
    case False
    have "\<exists>ys. fold (\<lambda>iter (neighbors, distances).
                let dist = dist2_fp q (st ! iter)
                in if dist < m_sqradius it then (neighbors @ [iter], distances @ [dist])
                   else (neighbors, distances)) (m_points node) nd
            = (fst nd @ ys, snd nd @ map (\<lambda>a. dist2_fp q (st ! a)) ys)
          \<and> (\<forall>a\<in>set ys. dist2_fp q (st ! a) < m_sqradius it)"
      by (rule fold_appends2) (auto simp: Let_def split: prod.splits)
    moreover have "\<exists>ys. nd = (fst nd @ ys, snd nd @ map (\<lambda>a. dist2_fp q (st ! a)) ys)
          \<and> (\<forall>a\<in>set ys. dist2_fp q (st ! a) < m_sqradius it)"
      by (intro exI [of _ "[]"]) simp
    ultimately show ?thesis
      using False by (subst explore_dist_fp.simps) (cases "getNpts node = 0"; simp)
  qed
qed

lemma getNeighbors_node_fp_appends:
  "\<exists>ys. getNeighbors_node_fp oc it q qn ns = ns @ ys
        \<and> (\<forall>a\<in>set ys. dist2_fp q (store oc ! a) < m_sqradius it)"
  unfolding getNeighbors_node_fp_def by (rule fold_appends) (rule explore_fp_appends)

lemma getNeighbors_node_dist_fp_appends:
  "\<exists>ys. getNeighbors_node_dist_fp oc it q qn nd
          = (fst nd @ ys, snd nd @ map (\<lambda>a. dist2_fp q (store oc ! a)) ys)
        \<and> (\<forall>a\<in>set ys. dist2_fp q (store oc ! a) < m_sqradius it)"
  unfolding getNeighbors_node_dist_fp_def by (rule fold_appends2) (rule explore_dist_fp_appends)

section \<open>The radius and the active depth in double precision\<close>

lemma setR_fp_reject: "\<not> radius < m_size oc \<Longrightarrow> setR_fp oc it radius = Inr (False, it)"
  by (simp add: setR_fp_def)

lemma setR_fp_not_reject: "radius < m_size oc \<Longrightarrow> setR_fp oc it radius \<noteq> Inr (False, it')"
  by (simp add: setR_fp_def Let_def split: option.splits)

lemma setR_fp_accept:
  assumes r: "radius < m_size oc"
    and q: "0 < fl (m_size oc / fl (2 * radius))"
    and f: "\<lfloor>fl (log 2 (fl (m_size oc / fl (2 * radius))))\<rfloor> \<le> int (m_depth oc)"
      "int (m_depth oc) - \<lfloor>fl (log 2 (fl (m_size oc / fl (2 * radius))))\<rfloor> < 2 ^ 32"
  shows "setR_fp oc it radius =
    Inr (True, it\<lparr>m_radius := radius, m_sqradius := fl (radius * radius),
                    m_activeDepth :=
                      nat (int (m_depth oc) - \<lfloor>fl (log 2 (fl (m_size oc / fl (2 * radius))))\<rfloor>)\<rparr>)"
proof -
  let ?f = "\<lfloor>fl (log 2 (fl (m_size oc / fl (2 * radius))))\<rfloor>"
  let ?k = "int (m_depth oc) - ?f"
  have d: "fl (2 * radius) \<noteq> 0"
    using q by (cases "fl (2 * radius) = 0") simp_all
  have "\<bar>?k\<bar> < 2 ^ 53"
    using f by simp
  then have "fl (of_int ?k) = of_int ?k"
    by (rule fl_of_int)
  moreover have "real (m_depth oc) - real_of_int ?f = of_int ?k"
    by simp
  ultimately have "fl (real (m_depth oc) - real_of_int ?f) = of_int ?k"
    by (simp only:)
  then have "map_option unat (to_uint (fl (real (m_depth oc) - real_of_int ?f))) = Some (nat ?k)"
    using to_uint_of_int [of ?k] f by (simp only:)
  then have "depth_for_fp oc (fl (2 * radius)) = Some (nat ?k)"
    using d q by (simp add: depth_for_fp_def floor_log2_fp_def)
  then show ?thesis
    using r by (simp add: setR_fp_def)
qed

section \<open>The shape of the octree in double precision\<close>





















section \<open>A logarithm that rounds up to an integer\<close>

text \<open>
  The double below 8 is \<open>8 - 2 ^ -50\<close>. Its logarithm to the base 2 is below 3 and not
  further from 3 than half the distance between 3 and the double below 3, so that the
  rounded logarithm is 3 and its floor is 3, while the floor of the logarithm is 2.
\<close>

lemma round_even_up:
  assumes "of_int n - 1/2 \<le> t" "t < of_int n" "even n"
  shows "round_even t = n"
proof -
  have f: "\<lfloor>t\<rfloor> = n - 1"
    using assms(1,2) by (intro floor_unique) simp_all
  have "odd (n - 1)"
    using assms(3) by simp
  moreover have "1/2 \<le> t - of_int (n - 1)"
    using assms(1) by simp
  ultimately show ?thesis
    unfolding round_even_def Let_def f by auto
qed

lemma log2_below_8:
  "3 - 1 / 2 ^ 52 \<le> log 2 (8 - 1 / 2 ^ 50)" "log 2 (8 - 1 / 2 ^ 50) < 3"
proof -
  define a :: real where "a = 1 / 2 ^ 53"
  define N :: nat where "N = 2 ^ 52"
  have a: "0 < a" "a < 1"
    by (simp_all add: a_def)
  have N: "real N = 2 ^ 52"
    by (simp add: N_def)
  have Na: "real N * a = 1/2"
    unfolding N a_def by simp
  have "1 + real N * (- a) \<le> (1 + (- a)) ^ N"
    using a by (intro Bernoulli_inequality) simp
  then have b: "1/2 \<le> (1 - a) ^ N"
    using Na by simp
  have p: "0 < (1 - a) ^ N"
    using a by simp
  have "log 2 (1/2) \<le> log 2 ((1 - a) ^ N)"
    using b p by (subst log_le_cancel_iff) simp_all
  moreover have "log 2 (1/2) = - 1"
    by (simp add: log_divide)
  moreover have "log 2 ((1 - a) ^ N) = real N * log 2 (1 - a)"
    using a by (simp add: log_nat_power)
  ultimately have "- 1 \<le> 2 ^ 52 * log 2 (1 - a)"
    unfolding N by simp
  then have l: "- (1 / 2 ^ 52) \<le> log 2 (1 - a)"
    by (simp add: field_simps)
  have e: "8 - 1 / 2 ^ 50 = 8 * (1 - a)"
    by (simp add: a_def)
  have "log 2 (8 * (1 - a)) = log 2 8 + log 2 (1 - a)"
    by (rule log_mult_pos) (use a in simp_all)
  moreover have "log 2 8 = 3"
    using log_pow_cancel [of 2 3] by simp
  ultimately have y: "log 2 (8 - 1 / 2 ^ 50) = 3 + log 2 (1 - a)"
    unfolding e by simp
  show "3 - 1 / 2 ^ 52 \<le> log 2 (8 - 1 / 2 ^ 50)"
    unfolding y using l by simp
  have "log 2 (1 - a) < log 2 1"
    using a by (subst log_less_cancel_iff) simp_all
  then show "log 2 (8 - 1 / 2 ^ 50) < 3"
    unfolding y by simp
qed

lemma fl_log2_below_8: "fl (log 2 (8 - 1 / 2 ^ 50)) = 3"
proof -
  define y where "y = log 2 (8 - 1 / 2 ^ 50)"
  have y: "3 - 1 / 2 ^ 52 \<le> y" "y < 3"
    unfolding y_def by (rule log2_below_8)+
  then have ay: "\<bar>y\<bar> = y"
    by simp
  have "(3 - 1 / 2 ^ 52) * 2 ^ 51 \<le> y * 2 ^ 51" "y * 2 ^ 51 < 3 * 2 ^ 51"
    using y by simp_all
  then have t: "of_int (3 * 2 ^ 51) - 1/2 \<le> y * 2 ^ 51" "y * 2 ^ 51 < of_int (3 * 2 ^ 51)"
    by simp_all
  then have "round_even (y * 2 ^ 51) = 3 * 2 ^ 51"
    by (rule round_even_up) simp
  moreover have "2 ^ 52 \<le> \<bar>y\<bar> * 2 ^ 51" "\<bar>y\<bar> * 2 ^ 51 < 2 ^ 53"
    unfolding ay using t by simp_all
  ultimately have "fl y = of_int (3 * 2 ^ 51) / 2 ^ 51"
    by (intro fl_eqI) simp_all
  then show ?thesis
    by (simp add: y_def)
qed

text \<open>An empty octree of depth 3 whose size is the double below 8.\<close>

definition r5_octree :: Octree where
  "r5_octree = initialize (setDepth new_Octree 3) \<lparr>m_x = 0, m_y = 0, m_z = 0\<rparr> (8 - 1 / 2 ^ 50)"

lemma r5_fl:
  "fl 1 = 1" "fl (1 / 4) = 1 / 4"
  "fl (9007199254740991 / 1125899906842624) = 9007199254740991 / 1125899906842624"
  using fl_of_int [of 1] fl_eqI [of 54 "1 / 4" "4503599627370496"]
    fl_eqI [of 50 "9007199254740991 / 1125899906842624" "9007199254740991"]
  by (simp_all add: round_even_def)

lemma r5_log: "\<lfloor>fl (log 2 (9007199254740991 / 1125899906842624))\<rfloor> = 3"
  using fl_log2_below_8 by simp

lemma r5_exact_log: "\<lfloor>log 2 (9007199254740991 / 1125899906842624)\<rfloor> = 2"
proof (rule floor_unique)
  show "of_int 2 \<le> log 2 (9007199254740991 / 1125899906842624)"
    by (simp add: le_log_iff)
  show "log 2 (9007199254740991 / 1125899906842624) < of_int 2 + 1"
    by (simp add: log_less_iff)
qed

lemma r5_setR:
  "setR_fp r5_octree it (1/2)
     = Inr (True, it\<lparr>m_radius := 1/2, m_sqradius := 1/4, m_activeDepth := 0\<rparr>)"
  by (simp add: r5_octree_def initialize_def setDepth_def new_Octree_def setR_fp_def
      depth_for_fp_def floor_log2_fp_def to_uint_def r5_fl r5_log)

lemma r5_formula:
  "m_depth r5_octree = 3" "(1/2 :: real) < m_size r5_octree"
  "int (m_depth r5_octree) - \<lfloor>log 2 (m_size r5_octree / (2 * (1/2)))\<rfloor> = 1"
  by (simp_all add: r5_octree_def initialize_def setDepth_def new_Octree_def r5_exact_log)

text \<open>The roundings of the runs in the octree of depth 2 with the origin \<open>-0.05\<close> and the size \<open>0.9\<close>.\<close>

lemma rt_fl_1: "fl (- (1 / 20)) = - (3602879701896397 / 72057594037927936)"
  using fl_eqI [of 57 "- (1 / 20)" "- 7205759403792794"] by (simp add: round_even_def)

lemma rt_fl_2: "fl (9 / 10) = 8106479329266893 / 9007199254740992"
  using fl_eqI [of 53 "9 / 10" "8106479329266893"] by (simp add: round_even_def)

lemma rt_fl_3: "fl (9 / 20) = 8106479329266893 / 18014398509481984"
  using fl_eqI [of 54 "9 / 20" "8106479329266893"] by (simp add: round_even_def)

lemma rt_fl_4: "fl (9 / 40) = 8106479329266893 / 36028797018963968"
  using fl_eqI [of 55 "9 / 40" "8106479329266893"] by (simp add: round_even_def)

lemma rt_fl_5: "fl (7 / 40) = 3152519739159347 / 18014398509481984"
  using fl_eqI [of 55 "7 / 40" "6305039478318694"] by (simp add: round_even_def)

lemma rt_fl_6: "fl (3 / 10) = 5404319552844595 / 18014398509481984"
  using fl_eqI [of 54 "3 / 10" "5404319552844595"] by (simp add: round_even_def)

lemma rt_fl_7: "fl (16212958658533785 / 72057594037927936) = 2026619832316723 / 9007199254740992"
  using fl_eqI [of 55 "16212958658533785 / 72057594037927936" "8106479329266892"] by (simp add: round_even_def)

lemma rt_fl_8: "fl (2026619832316723 / 8106479329266893) = 9007199254740991 / 36028797018963968"
  using fl_eqI [of 55 "2026619832316723 / 8106479329266893" "9007199254740991"] by (simp add: round_even_def)

lemma rt_fl_9: "fl (9007199254740991 / 9007199254740992) = 9007199254740991 / 9007199254740992"
  using fl_eqI [of 53 "9007199254740991 / 9007199254740992" "9007199254740991"] by (simp add: round_even_def)

lemma rt_fl_10: "fl (8106479329266893 / 18014398509481984) = 8106479329266893 / 18014398509481984"
  using fl_eqI [of 54 "8106479329266893 / 18014398509481984" "8106479329266893"] by (simp add: round_even_def)

lemma rt_fl_11: "fl (- (3602879701896397 / 72057594037927936)) = - (3602879701896397 / 72057594037927936)"
  using fl_eqI [of 57 "- (3602879701896397 / 72057594037927936)" "- 7205759403792794"] by (simp add: round_even_def)

lemma rt_fl_12: "fl (8106479329266893 / 36028797018963968) = 8106479329266893 / 36028797018963968"
  using fl_eqI [of 55 "8106479329266893 / 36028797018963968" "8106479329266893"] by (simp add: round_even_def)

lemma rt_fl_13: "fl (25220157913274777 / 72057594037927936) = 3152519739159347 / 9007199254740992"
  using fl_eqI [of 54 "25220157913274777 / 72057594037927936" "6305039478318694"] by (simp add: round_even_def)

lemma rt_fl_14: "fl (3152519739159347 / 8106479329266893) = 875699927544263 / 2251799813685248"
  using fl_eqI [of 54 "3152519739159347 / 8106479329266893" "7005599420354104"] by (simp add: round_even_def)

lemma rt_fl_15: "fl (875699927544263 / 562949953421312) = 875699927544263 / 562949953421312"
  using fl_eqI [of 52 "875699927544263 / 562949953421312" "7005599420354104"] by (simp add: round_even_def)

lemma rt_fl_16: "fl (12610078956637389 / 72057594037927936) = 3152519739159347 / 18014398509481984"
  using fl_eqI [of 55 "12610078956637389 / 72057594037927936" "6305039478318694"] by (simp add: round_even_def)

lemma rt_fl_17: "fl (65715007115831415416180825873449 / 1298074214633706907132624082305024) = 1823957849085051 / 36028797018963968"
  using fl_eqI [of 57 "65715007115831415416180825873449 / 1298074214633706907132624082305024" "7295831396340204"] by (simp add: round_even_def)

lemma rt_fl_18: "fl (9999999999999949 / 100000000000000000) = 7205759403792757 / 72057594037927936"
  using fl_eqI [of 56 "9999999999999949 / 100000000000000000" "7205759403792757"] by (simp add: round_even_def)

lemma rt_fl_19: "fl (51922968585347748823716605661049 / 5192296858534827628530496329220096) = 90071992547409 / 9007199254740992"
  using fl_eqI [of 59 "51922968585347748823716605661049 / 5192296858534827628530496329220096" "5764607523034176"] by (simp add: round_even_def)

lemma rt_fl_20: "fl (7205759403792757 / 36028797018963968) = 7205759403792757 / 36028797018963968"
  using fl_eqI [of 55 "7205759403792757 / 36028797018963968" "7205759403792757"] by (simp add: round_even_def)

lemma rt_fl_21: "fl (32425917317067572 / 7205759403792757) = 2533274790395917 / 562949953421312"
  using fl_eqI [of 50 "32425917317067572 / 7205759403792757" "5066549580791834"] by (simp add: round_even_def)

lemma rt_fl_22: "fl (27499999999999947 / 100000000000000000) = 309622474381721 / 1125899906842624"
  using fl_eqI [of 54 "27499999999999947 / 100000000000000000" "4953959590107536"] by (simp add: round_even_def)

lemma rt_fl_23: "fl (9007199254740992 / 8106479329266893) = 2501999792983609 / 2251799813685248"
  using fl_eqI [of 52 "9007199254740992 / 8106479329266893" "5003999585967218"] by (simp add: round_even_def)

lemma rt_fl_24: "fl (2501999792983609 / 562949953421312) = 2501999792983609 / 562949953421312"
  using fl_eqI [of 50 "2501999792983609 / 562949953421312" "5003999585967218"] by (simp add: round_even_def)

lemma rt_fl_25: "fl (23418718062326541 / 72057594037927936) = 5854679515581635 / 18014398509481984"
  using fl_eqI [of 54 "23418718062326541 / 72057594037927936" "5854679515581635"] by (simp add: round_even_def)

lemma rt_fl_26: "fl (14648406935970626992661656420715 / 10141204801825835211973625643008) = 6505199461757373 / 4503599627370496"
  using fl_eqI [of 52 "14648406935970626992661656420715 / 10141204801825835211973625643008" "6505199461757373"] by (simp add: round_even_def)

lemma rt_fl_27: "fl (5070602400912917330766835593307 / 5070602400912917605986812821504) = 1"
  using fl_eqI [of 53 "5070602400912917330766835593307 / 5070602400912917605986812821504" "9007199254740992"] by (simp add: round_even_def)

lemma rt_fl_28: "fl (12610078956637387 / 72057594037927936) = 3152519739159347 / 18014398509481984"
  using fl_eqI [of 55 "12610078956637387 / 72057594037927936" "6305039478318694"] by (simp add: round_even_def)

lemma rt_fl_29: "fl (27021597764222901 / 72057594037927936) = 6755399441055725 / 18014398509481984"
  using fl_eqI [of 54 "27021597764222901 / 72057594037927936" "6755399441055725"] by (simp add: round_even_def)

lemma rt_fl_30: "fl (14411518807585587 / 36028797018963968) = 3602879701896397 / 9007199254740992"
  using fl_eqI [of 54 "14411518807585587 / 36028797018963968" "7205759403792794"] by (simp add: round_even_def)

lemma rt_fl_31: "fl (5404319552844631 / 72057594037927936) = 5404319552844631 / 72057594037927936"
  using fl_eqI [of 56 "5404319552844631 / 72057594037927936" "5404319552844631"] by (simp add: round_even_def)

lemma rt_fl_32: "fl (19815838360430145 / 72057594037927936) = 309622474381721 / 1125899906842624"
  using fl_eqI [of 54 "19815838360430145 / 72057594037927936" "4953959590107536"] by (simp add: round_even_def)

lemma rt_fl_33: "fl (- (450359962737059 / 18014398509481984)) = - (450359962737059 / 18014398509481984)"
  using fl_eqI [of 58 "- (450359962737059 / 18014398509481984)" "- 7205759403792944"] by (simp add: round_even_def)

lemma rt_fl_34: "fl (- (1 / 8)) = - (1 / 8)"
  using fl_eqI [of 55 "- (1 / 8)" "- 4503599627370496"] by (simp add: round_even_def)

lemma rt_fl_35: "fl (202824096036525171006771969481 / 324518553658426726783156020576256) = 1441151880758619 / 2305843009213693952"
  using fl_eqI [of 63 "202824096036525171006771969481 / 324518553658426726783156020576256" "5764607523034476"] by (simp add: round_even_def)

lemma rt_fl_36: "fl (1 / 64) = 1 / 64"
  using fl_eqI [of 58 "1 / 64" "4503599627370496"] by (simp add: round_even_def)

lemma rt_fl_37: "fl (37469948899722587 / 2305843009213693952) = 4683743612465323 / 288230376151711744"
  using fl_eqI [of 58 "37469948899722587 / 2305843009213693952" "4683743612465323"] by (simp add: round_even_def)

lemma rt_fl_38: "fl (9187343239835819 / 288230376151711744) = 2296835809958955 / 72057594037927936"
  using fl_eqI [of 57 "9187343239835819 / 288230376151711744" "4593671619917910"] by (simp add: round_even_def)

lemma rt_fl_39: "fl (1801439850948189 / 18014398509481984) = 1801439850948189 / 18014398509481984"
  using fl_eqI [of 56 "1801439850948189 / 18014398509481984" "7205759403792756"] by (simp add: round_even_def)

lemma rt_fl_40: "fl (3245185536584233400762362379721 / 324518553658426726783156020576256) = 5764607523034175 / 576460752303423488"
  using fl_eqI [of 59 "3245185536584233400762362379721 / 324518553658426726783156020576256" "5764607523034175"] by (simp add: round_even_def)

lemma rt_fl_41: "fl (5764607523034175 / 576460752303423488) = 5764607523034175 / 576460752303423488"
  using fl_eqI [of 59 "5764607523034175 / 576460752303423488" "5764607523034175"] by (simp add: round_even_def)

lemma rt_fl_42: "fl (8106479329266893 / 9007199254740992) = 8106479329266893 / 9007199254740992"
  using fl_eqI [of 53 "8106479329266893 / 9007199254740992" "8106479329266893"] by (simp add: round_even_def)

lemma rt_fl_43: "fl (65715007115831415416180825873449 / 81129638414606681695789005144064) = 1823957849085051 / 2251799813685248"
  using fl_eqI [of 53 "65715007115831415416180825873449 / 81129638414606681695789005144064" "7295831396340204"] by (simp add: round_even_def)

lemma rt_fl_44: "fl (7887603734753427236970610143323 / 5070602400912917605986812821504) = 7005599420354105 / 4503599627370496"
  using fl_eqI [of 52 "7887603734753427236970610143323 / 5070602400912917605986812821504" "7005599420354105"] by (simp add: round_even_def)

lemma rt_fl_45: "fl (1 / 32) = 1 / 32"
  using fl_eqI [of 57 "1 / 32" "4503599627370496"] by (simp add: round_even_def)

lemma rt_fl_46: "fl (3 / 64) = 3 / 64"
  using fl_eqI [of 57 "3 / 64" "6755399441055744"] by (simp add: round_even_def)

lemma rt_fl_47: "fl (- 2) = - 2"
  using fl_eqI [of 51 "- 2" "- 4503599627370496"] by (simp add: round_even_def)

lemma rt_fl_48: "fl (- (8106479329266893 / 18014398509481984)) = - (8106479329266893 / 18014398509481984)"
  using fl_eqI [of 54 "- (8106479329266893 / 18014398509481984)" "- 8106479329266893"] by (simp add: round_even_def)

lemmas rt_fl = rt_fl_1 rt_fl_2 rt_fl_3 rt_fl_4 rt_fl_5 rt_fl_6 rt_fl_7 rt_fl_8 rt_fl_9 rt_fl_10 rt_fl_11 rt_fl_12 rt_fl_13 rt_fl_14 rt_fl_15 rt_fl_16 rt_fl_17 rt_fl_18 rt_fl_19 rt_fl_20 rt_fl_21 rt_fl_22 rt_fl_23 rt_fl_24 rt_fl_25 rt_fl_26 rt_fl_27 rt_fl_28 rt_fl_29 rt_fl_30 rt_fl_31 rt_fl_32 rt_fl_33 rt_fl_34 rt_fl_35 rt_fl_36 rt_fl_37 rt_fl_38 rt_fl_39 rt_fl_40 rt_fl_41 rt_fl_42 rt_fl_43 rt_fl_44 rt_fl_45 rt_fl_46 rt_fl_47 rt_fl_48

section \<open>Two samples in an octree of depth 2, in double precision\<close>

text \<open>
  The octree of depth 2 with the origin \<open>(-0.05, -0.05, -0.05)\<close> and the size \<open>0.9\<close>, and the
  samples \<open>(0.175, 0.175, 0.175)\<close> and \<open>(0.3, 0.3, 0.3)\<close>; every number is the double
  nearest to the decimal. \<^verbatim>\<open>addPoint\<close> computes \<open>0.9999999999999999\<close> for the first sample
  and files it under the code 0, in the leaf at the octree origin; the leaf with the codes
  \<open>(1, 1, 1)\<close>, whose origin is \<open>0.175\<close>, holds the second sample.
\<close>

definition rt_origin :: Point where
  "rt_origin = \<lparr>m_x = fl (- 0.05), m_y = fl (- 0.05), m_z = fl (- 0.05)\<rparr>"

definition rt_samples :: "Sample list" where
  "rt_samples = [new_Sample (fl 0.175) (fl 0.175) (fl 0.175), new_Sample (fl 0.3) (fl 0.3) (fl 0.3)]"

definition rt_leaf0 :: OctreeNode where
  "rt_leaf0 = OctreeNode rt_origin (fl 0.225) 0 0 0 0 (Some 0) 1 (replicate 8 None) [0]"

definition rt_leaf7 :: OctreeNode where
  "rt_leaf7 = OctreeNode \<lparr>m_x = fl 0.175, m_y = fl 0.175, m_z = fl 0.175\<rparr> (fl 0.225) 0 1 1 1
     (Some 7) 1 (replicate 8 None) [1]"

definition rt_cell0 :: OctreeNode where
  "rt_cell0 = OctreeNode rt_origin (fl 0.45) 1 0 0 0 (Some 0) 0
     [Some rt_leaf0, None, None, None, None, None, None, Some rt_leaf7] []"

definition rt_root :: OctreeNode where
  "rt_root = OctreeNode rt_origin (fl 0.9) 2 0 0 0 None 0
     [Some rt_cell0, None, None, None, None, None, None, None] []"

definition rt_built :: Octree where
  "rt_built =
     \<lparr>m_depth = 2, m_npoints = 2, m_origin = rt_origin, m_size = fl 0.9, m_binsize = 4,
      m_root = rt_root, store = rt_samples\<rparr>"

lemmas rt_defs =
  rt_origin_def rt_samples_def rt_leaf0_def rt_leaf7_def rt_cell0_def rt_root_def rt_built_def

lemmas model_fp_defs =
  initialize_def setDepth_def new_Octree_def new_Sample_def addPoint_fp_def locCode_fp_def
  to_uint_def pow2_def new_OctreeNode_def setLoc_def Let_def addPoint_loop_fp.simps
  getChild_def setChild_def initializeChild_fp_def node_addPoint_def build_fp_def

lemmas query_fp_defs =
  getNeighbors_node_fp_def explored_cells_fp_def search_level_def axis_locs_fp_def
  traverseFromRoot_def getXLeftCode_def getXRightCode_def getYLeftCode_def getYRightCode_def
  getZLeftCode_def getZRightCode_def dist2_fp_def getNeighbors_fp_def locatePointNode_fp_def
  computeCode_fp_def traverseToLevel.simps explore_fp.simps

lemma rt_build: "build_fp 2 rt_origin (fl 0.9) rt_samples = Inr rt_built"
  by (simp add: rt_defs model_fp_defs replicate8 rt_fl)

text \<open>
  The radius \<open>0.09999999999999949\<close>, the iterator that \<^verbatim>\<open>setR\<close> gives for it (the quotient
  \<open>size / (2 r)\<close> is about \<open>4.5\<close>, so the active depth is \<open>2 - 2 = 0\<close>), the iterator that
  \<^verbatim>\<open>setDepth(0)\<close> gives, and a query point at \<open>0.0999999999999995\<close> from the first sample
  along the x axis.
\<close>

definition rt_r :: real where
  "rt_r = fl 0.09999999999999949"

definition rt_it :: OctreeIterator where
  "rt_it = \<lparr>m_activeDepth = 0, m_radius = rt_r, m_sqradius = fl (rt_r * rt_r)\<rparr>"

definition rt_it0 :: OctreeIterator where
  "rt_it0 = \<lparr>m_activeDepth = 0, m_radius = fl 0.9, m_sqradius = fl (fl 0.9 * fl 0.9)\<rparr>"

definition rt_query :: Point where
  "rt_query = \<lparr>m_x = fl 0.27499999999999947, m_y = fl 0.175, m_z = fl 0.175\<rparr>"

lemma rt_log: "\<lfloor>fl (log 2 (2533274790395917 / 562949953421312))\<rfloor> = 2"
  using floor_fl_log2 [of "2533274790395917 / 562949953421312" 2] by (simp add: power_divide)

lemma rt_setR: "setR_fp rt_built (new_OctreeIterator_fp rt_built) rt_r = Inr (True, rt_it)"
  by (simp add: rt_built_def rt_it_def rt_r_def setR_fp_def depth_for_fp_def floor_log2_fp_def
      new_OctreeIterator_fp_def to_uint_def pow2_def rt_fl rt_log)

lemma rt_setDepth: "it_setDepth_fp rt_built (new_OctreeIterator_fp rt_built) 0 = (True, rt_it0)"
  by (simp add: rt_built_def rt_it0_def it_setDepth_fp_def new_OctreeIterator_fp_def pow2_def rt_fl)

lemma rt_near: "sqrt (dist2 rt_query (store rt_built ! 0)) < rt_r"
  by (rule real_less_lsqrt)
     (simp_all add: rt_built_def rt_samples_def rt_query_def rt_r_def new_Sample_def dist2_def
        rt_fl power2_eq_square)

lemma rt_near_fp: "dist2_fp rt_query (store rt_built ! 0) < m_sqradius rt_it"
  by (simp add: rt_built_def rt_samples_def rt_query_def rt_it_def rt_r_def new_Sample_def
      dist2_fp_def rt_fl)

lemma rt_in_box:
  "in_box rt_origin (fl 0.9) (rt_samples ! 0)" "in_box rt_origin (fl 0.9) (rt_samples ! 1)"
  "in_box rt_origin (fl 0.9) rt_query"
  by (simp_all add: in_box_def rt_origin_def rt_samples_def rt_query_def new_Sample_def rt_fl)

lemma rt_getNeighbors: "getNeighbors_fp rt_built rt_it rt_query [] = Inr []"
  by (simp add: rt_defs rt_it_def rt_r_def rt_query_def query_fp_defs new_Sample_def getChild_def
      pow2_def Let_def to_uint_def rt_fl)

lemma rt_locate: "locatePointNode_fp rt_built rt_it0 (rt_samples ! 0) = Inr rt_leaf7"
  by (simp add: rt_defs rt_it0_def query_fp_defs new_Sample_def getChild_def pow2_def Let_def
      to_uint_def rt_fl)

lemma rt_locate_root:
  "locatePointNode_fp rt_built (new_OctreeIterator_fp rt_built) (rt_samples ! 0) = Inr rt_root"
  by (simp add: rt_defs new_OctreeIterator_fp_def query_fp_defs new_Sample_def getChild_def
      pow2_def Let_def to_uint_def rt_fl)

lemma rt_subnodes: "subnodes (m_root rt_built) = [rt_root, rt_cell0, rt_leaf0, rt_leaf7]"
  by (simp add: rt_defs subnodes.simps replicate8)

text \<open>The roundings of the run in the octree of depth 2 with the origin \<open>0.1\<close> and the size \<open>0.7\<close>.\<close>

lemma lc_fl_1: "fl (1 / 10) = 3602879701896397 / 36028797018963968"
  using fl_eqI [of 56 "1 / 10" "7205759403792794"] by (simp add: round_even_def)

lemma lc_fl_2: "fl (7 / 10) = 3152519739159347 / 4503599627370496"
  using fl_eqI [of 53 "7 / 10" "6305039478318694"] by (simp add: round_even_def)

lemma lc_fl_3: "fl (21617278211378379 / 36028797018963968) = 5404319552844595 / 9007199254740992"
  using fl_eqI [of 53 "21617278211378379 / 36028797018963968" "5404319552844595"] by (simp add: round_even_def)

lemma lc_fl_4: "fl (5404319552844595 / 6305039478318694) = 1930114126015927 / 2251799813685248"
  using fl_eqI [of 53 "5404319552844595 / 6305039478318694" "7720456504063708"] by (simp add: round_even_def)

lemma lc_fl_5: "fl (1930114126015927 / 562949953421312) = 1930114126015927 / 562949953421312"
  using fl_eqI [of 51 "1930114126015927 / 562949953421312" "7720456504063708"] by (simp add: round_even_def)

lemma lc_fl_6: "fl (3152519739159347 / 9007199254740992) = 3152519739159347 / 9007199254740992"
  using fl_eqI [of 54 "3152519739159347 / 9007199254740992" "6305039478318694"] by (simp add: round_even_def)

lemma lc_fl_7: "fl (16212958658533785 / 36028797018963968) = 2026619832316723 / 4503599627370496"
  using fl_eqI [of 54 "16212958658533785 / 36028797018963968" "8106479329266892"] by (simp add: round_even_def)

lemma lc_fl_8: "fl (3152519739159347 / 18014398509481984) = 3152519739159347 / 18014398509481984"
  using fl_eqI [of 55 "3152519739159347 / 18014398509481984" "6305039478318694"] by (simp add: round_even_def)

lemma lc_fl_9: "fl (11258999068426239 / 18014398509481984) = 5 / 8"
  using fl_eqI [of 53 "11258999068426239 / 18014398509481984" "5629499534213120"] by (simp add: round_even_def)

lemma lc_fl_10: "fl (9457559217478041 / 18014398509481984) = 1182194902184755 / 2251799813685248"
  using fl_eqI [of 53 "9457559217478041 / 18014398509481984" "4728779608739020"] by (simp add: round_even_def)

lemma lc_fl_11: "fl (22517998136852477 / 36028797018963968) = 5629499534213119 / 9007199254740992"
  using fl_eqI [of 53 "22517998136852477 / 36028797018963968" "5629499534213119"] by (simp add: round_even_def)

lemma lc_fl_12: "fl (7 / 20) = 3152519739159347 / 9007199254740992"
  using fl_eqI [of 54 "7 / 20" "6305039478318694"] by (simp add: round_even_def)

lemma lc_fl_13: "fl (7 / 40) = 3152519739159347 / 18014398509481984"
  using fl_eqI [of 55 "7 / 40" "6305039478318694"] by (simp add: round_even_def)

lemma lc_fl_14: "fl (9 / 20) = 8106479329266893 / 18014398509481984"
  using fl_eqI [of 54 "9 / 20" "8106479329266893"] by (simp add: round_even_def)

lemma lc_fl_15: "fl (5 / 8) = 5 / 8"
  using fl_eqI [of 53 "5 / 8" "5629499534213120"] by (simp add: round_even_def)

lemma lc_fl_16: "fl (11249999999999999 / 25000000000000000) = 2026619832316723 / 4503599627370496"
  using fl_eqI [of 54 "11249999999999999 / 25000000000000000" "8106479329266892"] by (simp add: round_even_def)

lemma lc_fl_17: "fl (3152519739159347 / 4503599627370496) = 3152519739159347 / 4503599627370496"
  using fl_eqI [of 53 "3152519739159347 / 4503599627370496" "6305039478318694"] by (simp add: round_even_def)

lemmas lc_fl = lc_fl_1 lc_fl_2 lc_fl_3 lc_fl_4 lc_fl_5 lc_fl_6 lc_fl_7 lc_fl_8 lc_fl_9 lc_fl_10 lc_fl_11 lc_fl_12 lc_fl_13 lc_fl_14 lc_fl_15 lc_fl_16 lc_fl_17

section \<open>One sample in an octree of depth 2 and size 0.7, in double precision\<close>










lemma lc_sizes:
  "fl (fl 0.7 / 2 ^ 0) = fl 0.7 / 2 ^ 0" "fl (fl 0.7 / 2 ^ 1) = fl 0.7 / 2 ^ 1"
  "fl (fl 0.7 / 2 ^ 2) = fl 0.7 / 2 ^ 2"
  by (simp_all add: lc_fl)

text \<open>The roundings of the run in the octree of depth 0 over the cube of side 1.\<close>

lemma sq_fl_1: "fl (1831079423324189 / 5000000000000000) = 206161215214215 / 562949953421312"
  using fl_eqI [of 54 "1831079423324189 / 5000000000000000" "6597158886854880"] by (simp add: round_even_def)

lemma sq_fl_2: "fl (21972953079890267 / 100000000000000000) = 123696729128529 / 562949953421312"
  using fl_eqI [of 55 "21972953079890267 / 100000000000000000" "7916590664225856"] by (simp add: round_even_def)

lemma sq_fl_3: "fl (29297270773187023 / 100000000000000000) = 41232243042843 / 140737488355328"
  using fl_eqI [of 54 "29297270773187023 / 100000000000000000" "5277727109483904"] by (simp add: round_even_def)

lemma sq_fl_4: "fl (405171705839185 / 562949953421312) = 405171705839185 / 562949953421312"
  using fl_eqI [of 53 "405171705839185 / 562949953421312" "6482747293426960"] by (simp add: round_even_def)

lemma sq_fl_5: "fl (111600987220507 / 140737488355328) = 111600987220507 / 140737488355328"
  using fl_eqI [of 53 "111600987220507 / 140737488355328" "7142463182112448"] by (simp add: round_even_def)

lemma sq_fl_6: "fl (1 / 2) = 1 / 2"
  using fl_eqI [of 53 "1 / 2" "4503599627370496"] by (simp add: round_even_def)

lemma sq_fl_7: "fl (1) = 1"
  using fl_eqI [of 52 "1" "4503599627370496"] by (simp add: round_even_def)

lemma sq_fl_8: "fl (42502446658601874388338066225 / 316912650057057350374175801344) = 4831968756048113 / 36028797018963968"
  using fl_eqI [of 55 "42502446658601874388338066225 / 316912650057057350374175801344" "4831968756048113"] by (simp add: round_even_def)

lemma sq_fl_9: "fl (206161215214215 / 281474976710656) = 206161215214215 / 281474976710656"
  using fl_eqI [of 53 "206161215214215 / 281474976710656" "6597158886854880"] by (simp add: round_even_def)

lemma sq_fl_10: "fl (281474976710656 / 206161215214215) = 6148831626312725 / 4503599627370496"
  using fl_eqI [of 52 "281474976710656 / 206161215214215" "6148831626312725"] by (simp add: round_even_def)

lemma sq_fl_11: "fl (- (206161215214215 / 562949953421312)) = - (206161215214215 / 562949953421312)"
  using fl_eqI [of 54 "- (206161215214215 / 562949953421312)" "- 6597158886854880"] by (simp add: round_even_def)

lemma sq_fl_12: "fl (206161215214215 / 562949953421312) = 206161215214215 / 562949953421312"
  using fl_eqI [of 54 "206161215214215 / 562949953421312" "6597158886854880"] by (simp add: round_even_def)

lemma sq_fl_13: "fl (- (123696729128529 / 562949953421312)) = - (123696729128529 / 562949953421312)"
  using fl_eqI [of 55 "- (123696729128529 / 562949953421312)" "- 7916590664225856"] by (simp add: round_even_def)

lemma sq_fl_14: "fl (- (41232243042843 / 140737488355328)) = - (41232243042843 / 140737488355328)"
  using fl_eqI [of 54 "- (41232243042843 / 140737488355328)" "- 5277727109483904"] by (simp add: round_even_def)

lemma sq_fl_15: "fl (15300880797096674779801703841 / 316912650057057350374175801344) = 3479017504354641 / 72057594037927936"
  using fl_eqI [of 57 "15300880797096674779801703841 / 316912650057057350374175801344" "6958035008709282"] by (simp add: round_even_def)

lemma sq_fl_16: "fl (1700097866344074975533522649 / 19807040628566084398385987584) = 386557500483849 / 4503599627370496"
  using fl_eqI [of 56 "1700097866344074975533522649 / 19807040628566084398385987584" "6184920007741584"] by (simp add: round_even_def)

lemma sq_fl_17: "fl (9663937512096225 / 72057594037927936) = 301998047253007 / 2251799813685248"
  using fl_eqI [of 55 "9663937512096225 / 72057594037927936" "4831968756048112"] by (simp add: round_even_def)

lemma sq_fl_18: "fl (301998047253007 / 2251799813685248) = 301998047253007 / 2251799813685248"
  using fl_eqI [of 55 "301998047253007 / 2251799813685248" "4831968756048112"] by (simp add: round_even_def)

lemmas sq_fl = sq_fl_1 sq_fl_2 sq_fl_3 sq_fl_4 sq_fl_5 sq_fl_6 sq_fl_7 sq_fl_8 sq_fl_9 sq_fl_10 sq_fl_11 sq_fl_12 sq_fl_13 sq_fl_14 sq_fl_15 sq_fl_16 sq_fl_17 sq_fl_18

section \<open>A sample at the distance of the radius, in double precision\<close>

text \<open>
  The octree of depth 0 over the cube of side 1 centred at the origin, with the one sample
  \<open>(0.21972953079890267, 0.29297270773187023, 0)\<close>, whose distance to the origin is exactly
  the double \<open>r = 0.3662158846648378\<close> (the coordinates are \<open>3/5\<close> and \<open>4/5\<close> of \<open>r\<close>). The
  product \<open>r * r\<close> is rounded upwards when \<^verbatim>\<open>setR\<close> stores it.
\<close>

definition sq_origin :: Point where
  "sq_origin = \<lparr>m_x = - 0.5, m_y = - 0.5, m_z = - 0.5\<rparr>"

definition sq_samples :: "Sample list" where
  "sq_samples = [new_Sample (fl 0.21972953079890267) (fl 0.29297270773187023) 0]"

definition sq_built :: Octree where
  "sq_built =
     \<lparr>m_depth = 0, m_npoints = 1, m_origin = sq_origin, m_size = 1, m_binsize = 1,
      m_root = OctreeNode sq_origin 1 0 0 0 0 None 1 (replicate 8 None) [0],
      store = sq_samples\<rparr>"

definition sq_r :: real where
  "sq_r = fl 0.3662158846648378"

definition sq_it :: OctreeIterator where
  "sq_it = \<lparr>m_activeDepth = 0, m_radius = sq_r, m_sqradius = fl (sq_r * sq_r)\<rparr>"

definition sq_query :: Point where
  "sq_query = \<lparr>m_x = 0, m_y = 0, m_z = 0\<rparr>"

lemmas sq_defs = sq_origin_def sq_samples_def sq_built_def sq_r_def sq_it_def sq_query_def

lemma sq_build: "build_fp 0 sq_origin 1 sq_samples = Inr sq_built"
  by (simp add: sq_defs model_fp_defs replicate8 sq_fl)

lemma sq_log: "\<lfloor>fl (log 2 (6148831626312725 / 4503599627370496))\<rfloor> = 0"
  using floor_fl_log2 [of "6148831626312725 / 4503599627370496" 0] by (simp add: power_divide)

lemma sq_setR: "setR_fp sq_built (new_OctreeIterator_fp sq_built) sq_r = Inr (True, sq_it)"
  by (simp add: sq_defs setR_fp_def depth_for_fp_def floor_log2_fp_def
      new_OctreeIterator_fp_def to_uint_def pow2_def sq_fl sq_log)

lemma sq_getNeighbors: "getNeighbors_fp sq_built sq_it sq_query [] = Inr [0]"
  by (simp add: sq_defs query_fp_defs new_Sample_def getChild_def pow2_def Let_def to_uint_def
      sq_fl)

lemma sq_distance: "dist2 sq_query (store sq_built ! 0) = sq_r * sq_r"
  by (simp add: sq_defs new_Sample_def dist2_def sq_fl)

lemma sq_rounded_up: "sq_r * sq_r < m_sqradius sq_it"
  by (simp add: sq_defs sq_fl)


section \<open>The claims\<close>




text \<open>
  C2. Neighbour completeness fails in double precision. In the octree of depth 2 with the
  origin \<open>-0.05\<close> and the size \<open>0.9\<close> and the radius \<open>r = 0.09999999999999949\<close> set by
  \<^verbatim>\<open>setR\<close>, the query point \<open>(0.27499999999999947, 0.175, 0.175)\<close> is inside the bounding
  cube and the first sample \<open>(0.175, 0.175, 0.175)\<close> is closer to it than \<open>r\<close>, both as real
  numbers and by the test of \<^verbatim>\<open>explore\<close>; yet \<^verbatim>\<open>getNeighbors\<close> returns nothing. The query
  lies in the leaf with the origin \<open>0.175\<close>, the sample was filed in the leaf to its left,
  and \<open>q.x - r\<close> rounds to \<open>0.175\<close>, so that the test \<^verbatim>\<open>query.x() - m_radius < node_origin.x()\<close>
  fails and the left code is not searched.
\<close>

theorem getNeighbors_misses_near_sample:
  "in_box rt_origin (fl 0.9) (rt_samples ! 0) \<and> in_box rt_origin (fl 0.9) (rt_samples ! 1)
   \<and> build_fp 2 rt_origin (fl 0.9) rt_samples = Inr rt_built
   \<and> setR_fp rt_built (new_OctreeIterator_fp rt_built) rt_r = Inr (True, rt_it)
   \<and> m_radius rt_it = rt_r
   \<and> in_box rt_origin (fl 0.9) rt_query
   \<and> sqrt (dist2 rt_query (store rt_built ! 0)) < rt_r
   \<and> dist2_fp rt_query (store rt_built ! 0) < m_sqradius rt_it
   \<and> getNeighbors_fp rt_built rt_it rt_query [] = Inr []"
  using rt_in_box rt_build rt_setR rt_near rt_near_fp rt_getNeighbors by (simp add: rt_it_def)

text \<open>
  C3, as the code has it. In an octree of depth \<open>D < 32\<close> built by \<^verbatim>\<open>addPoints\<close>, each of the
  four \<^verbatim>\<open>getNeighbors\<close> overloads (the query node, where there is one, being a node of the
  octree) only appends to its output, and every sample it appends has a squared distance
  to the query, as \<^verbatim>\<open>dist2\<close> computes it in doubles, strictly below the stored
  \<^verbatim>\<open>m_sqradius\<close>; the overloads with distances append exactly these computed squared
  distances. After an accepted \<^verbatim>\<open>setR(r)\<close> whose product \<open>r * r\<close> does not overflow, the stored
  \<^verbatim>\<open>m_sqradius\<close> is the double nearest to \<open>r * r\<close>, which can be above \<open>r * r\<close>.
\<close>

theorem getNeighbors_sound_fp:
  assumes "D < 32" and "build_fp D origin sz pts = Inr oc"
    and "qn \<in> set (subnodes (m_root oc))"
  shows "(\<exists>ys. getNeighbors_node_fp oc it q qn ns = ns @ ys
        \<and> (\<forall>a\<in>set ys. dist2_fp q (store oc ! a) < m_sqradius it))
   \<and> (\<exists>ys. getNeighbors_node_dist_fp oc it q qn nd
            = (fst nd @ ys, snd nd @ map (\<lambda>a. dist2_fp q (store oc ! a)) ys)
          \<and> (\<forall>a\<in>set ys. dist2_fp q (store oc ! a) < m_sqradius it))
   \<and> (\<forall>res. getNeighbors_fp oc it q ns = Inr res \<longrightarrow>
         (\<exists>ys. res = ns @ ys \<and> (\<forall>a\<in>set ys. dist2_fp q (store oc ! a) < m_sqradius it)))
   \<and> (\<forall>res. getNeighbors_dist_fp oc it q nd = Inr res \<longrightarrow>
         (\<exists>ys. res = (fst nd @ ys, snd nd @ map (\<lambda>a. dist2_fp q (store oc ! a)) ys)
            \<and> (\<forall>a\<in>set ys. dist2_fp q (store oc ! a) < m_sqradius it)))
   \<and> (\<forall>b it'. setR_fp oc it r = Inr (b, it') \<and> b \<and> fl (r * r) < 2 ^ 1024 \<longrightarrow>
         m_sqradius it' = fl (r * r))"
proof -
  have 1: "\<exists>ys. getNeighbors_node_fp oc it q n ns = ns @ ys
        \<and> (\<forall>a\<in>set ys. dist2_fp q (store oc ! a) < m_sqradius it)" for n
    by (rule getNeighbors_node_fp_appends)
  have 2: "\<exists>ys. getNeighbors_node_dist_fp oc it q n nd
              = (fst nd @ ys, snd nd @ map (\<lambda>a. dist2_fp q (store oc ! a)) ys)
            \<and> (\<forall>a\<in>set ys. dist2_fp q (store oc ! a) < m_sqradius it)" for n
    by (rule getNeighbors_node_dist_fp_appends)
  have 3: "\<exists>ys. res = ns @ ys \<and> (\<forall>a\<in>set ys. dist2_fp q (store oc ! a) < m_sqradius it)"
    if "getNeighbors_fp oc it q ns = Inr res" for res
    using that 1 by (auto simp: getNeighbors_fp_def split: sum.splits)
  have 4: "\<exists>ys. res = (fst nd @ ys, snd nd @ map (\<lambda>a. dist2_fp q (store oc ! a)) ys)
              \<and> (\<forall>a\<in>set ys. dist2_fp q (store oc ! a) < m_sqradius it)"
    if "getNeighbors_dist_fp oc it q nd = Inr res" for res
    using that 2 by (auto simp: getNeighbors_dist_fp_def split: sum.splits)
  have 5: "m_sqradius it' = fl (r * r)" if "setR_fp oc it r = Inr (b, it')" "b" for b it'
    using that by (auto simp: setR_fp_def Let_def split: if_splits option.splits)
  show ?thesis
    using 1 2 3 4 5 by blast
qed

theorem getNeighbors_sound_fp_witness:
  "(2::nat) < 32 \<and> build_fp 2 rt_origin (fl 0.9) rt_samples = Inr rt_built
   \<and> rt_leaf0 \<in> set (subnodes (m_root rt_built))
   \<and> setR_fp rt_built (new_OctreeIterator_fp rt_built) rt_r = Inr (True, rt_it)
   \<and> m_sqradius rt_it = fl (rt_r * rt_r)
   \<and> getNeighbors_fp rt_built rt_it (rt_samples ! 0) [] = Inr [0]
   \<and> dist2_fp (rt_samples ! 0) (store rt_built ! 0) < m_sqradius rt_it"
proof -
  have ev: "getNeighbors_fp rt_built rt_it (rt_samples ! 0) [] = Inr [0]"
    by (simp add: rt_defs rt_it_def rt_r_def query_fp_defs new_Sample_def getChild_def
        pow2_def Let_def to_uint_def rt_fl)
  have m: "rt_leaf0 \<in> set (subnodes (m_root rt_built))"
    by (simp add: rt_subnodes)
  have d: "(2::nat) < 32"
    by simp
  note s = getNeighbors_sound_fp [OF d rt_build m,
      where it = rt_it and q = "rt_samples ! 0" and ns = "[]" and r = rt_r]
  have "m_sqradius rt_it = fl (rt_r * rt_r)"
    by (simp add: rt_it_def)
  moreover obtain ys where "[0] = [] @ ys"
    "\<forall>a\<in>set ys. dist2_fp (rt_samples ! 0) (store rt_built ! a) < m_sqradius rt_it"
    using s ev by blast
  then have "dist2_fp (rt_samples ! 0) (store rt_built ! 0) < m_sqradius rt_it"
    by auto
  ultimately show ?thesis
    using ev rt_setR rt_build m by simp
qed

text \<open>
  C3 as stated fails. The sample \<open>(0.21972953079890267, 0.29297270773187023, 0)\<close> is at the
  distance \<open>r = 0.3662158846648378\<close> from the origin exactly, and \<^verbatim>\<open>getNeighbors\<close> with the
  radius \<open>r\<close> set by \<^verbatim>\<open>setR\<close> returns it for a query at the origin: the stored square of the
  radius is above \<open>r * r\<close>, and so above the squared distance.
\<close>

theorem getNeighbors_sound_counterexample:
  "build_fp 0 sq_origin 1 sq_samples = Inr sq_built
   \<and> setR_fp sq_built (new_OctreeIterator_fp sq_built) sq_r = Inr (True, sq_it)
   \<and> m_radius sq_it = sq_r
   \<and> sqrt (dist2 sq_query (store sq_built ! 0)) = sq_r
   \<and> dist2 sq_query (store sq_built ! 0) = m_radius sq_it * m_radius sq_it
   \<and> m_radius sq_it * m_radius sq_it < m_sqradius sq_it
   \<and> getNeighbors_fp sq_built sq_it sq_query [] = Inr [0]"
proof -
  have r: "0 \<le> sq_r"
    by (simp add: sq_r_def sq_fl)
  have "sqrt (dist2 sq_query (store sq_built ! 0)) = sq_r"
    unfolding sq_distance using r by simp
  moreover have "m_radius sq_it = sq_r"
    by (simp add: sq_it_def)
  ultimately show ?thesis
    using sq_build sq_setR sq_distance sq_rounded_up sq_getNeighbors by simp
qed

text \<open>
  C5, as the code has it. \<^verbatim>\<open>setR(r)\<close> returns false, leaving the iterator as it was, exactly
  when \<open>r\<close> is not below the size of the octree: there is no test \<open>0 < r\<close>. When \<open>r\<close> is below
  the size, the double \<open>q = size / (2 r)\<close> is positive, neither \<open>r * r\<close> nor \<open>q\<close> overflows and
  the floor \<open>f\<close> of the double \<open>log2 q\<close> is at most \<open>D\<close> (with \<open>D - f\<close> below \<open>2 ^ 32\<close>), it
  returns true, having stored \<open>r\<close>, the double nearest to \<open>r * r\<close> and the active depth
  \<open>D - f\<close>.
\<close>

theorem setR_contract_fp:
  "(\<not> radius < m_size oc \<longrightarrow> setR_fp oc it radius = Inr (False, it))
   \<and> (radius < m_size oc \<longrightarrow> (\<forall>it'. setR_fp oc it radius \<noteq> Inr (False, it')))
   \<and> (radius < m_size oc \<and> fl (radius * radius) < 2 ^ 1024
        \<and> 0 < fl (m_size oc / fl (2 * radius)) \<and> fl (m_size oc / fl (2 * radius)) < 2 ^ 1024
        \<and> \<lfloor>fl (log 2 (fl (m_size oc / fl (2 * radius))))\<rfloor> \<le> int (m_depth oc)
        \<and> int (m_depth oc) - \<lfloor>fl (log 2 (fl (m_size oc / fl (2 * radius))))\<rfloor> < 2 ^ 32 \<longrightarrow>
        setR_fp oc it radius =
          Inr (True, it\<lparr>m_radius := radius, m_sqradius := fl (radius * radius),
                          m_activeDepth :=
                            nat (int (m_depth oc)
                                 - \<lfloor>fl (log 2 (fl (m_size oc / fl (2 * radius))))\<rfloor>)\<rparr>))"
  using setR_fp_reject [of radius oc it] setR_fp_not_reject [of radius oc it]
    setR_fp_accept [of radius oc it] by blast

theorem setR_contract_fp_witness:
  "\<not> (1::real) < m_size rt_built \<and> setR_fp rt_built rt_it 1 = Inr (False, rt_it)
   \<and> rt_r < m_size rt_built
   \<and> setR_fp rt_built (new_OctreeIterator_fp rt_built) rt_r
       \<noteq> Inr (False, new_OctreeIterator_fp rt_built)
   \<and> fl (rt_r * rt_r) < 2 ^ 1024
   \<and> 0 < fl (m_size rt_built / fl (2 * rt_r))
   \<and> fl (m_size rt_built / fl (2 * rt_r)) < 2 ^ 1024
   \<and> \<lfloor>fl (log 2 (fl (m_size rt_built / fl (2 * rt_r))))\<rfloor> = 2
   \<and> m_depth rt_built = 2
   \<and> setR_fp rt_built (new_OctreeIterator_fp rt_built) rt_r
       = Inr (True, \<lparr>m_activeDepth = 0, m_radius = rt_r, m_sqradius = fl (rt_r * rt_r)\<rparr>)"
proof -
  have s: "m_size rt_built = fl 0.9" "m_depth rt_built = 2"
    by (simp_all add: rt_built_def)
  have a: "\<not> (1::real) < m_size rt_built" "rt_r < m_size rt_built"
    by (simp_all add: s rt_r_def rt_fl)
  have q: "0 < fl (m_size rt_built / fl (2 * rt_r))"
    "fl (m_size rt_built / fl (2 * rt_r)) < 2 ^ 1024" "fl (rt_r * rt_r) < 2 ^ 1024"
    by (simp_all add: s rt_r_def rt_fl)
  have f: "\<lfloor>fl (log 2 (fl (m_size rt_built / fl (2 * rt_r))))\<rfloor> = 2"
    by (simp add: s rt_r_def rt_fl rt_log)
  have "setR_fp rt_built rt_it 1 = Inr (False, rt_it)"
    using setR_contract_fp [of 1 rt_built rt_it] a(1) by blast
  moreover have "setR_fp rt_built (new_OctreeIterator_fp rt_built) rt_r
       \<noteq> Inr (False, new_OctreeIterator_fp rt_built)"
    using setR_contract_fp [of rt_r rt_built "new_OctreeIterator_fp rt_built"] a(2) by blast
  moreover have "setR_fp rt_built (new_OctreeIterator_fp rt_built) rt_r
       = Inr (True, \<lparr>m_activeDepth = 0, m_radius = rt_r, m_sqradius = fl (rt_r * rt_r)\<rparr>)"
    using setR_contract_fp [of rt_r rt_built "new_OctreeIterator_fp rt_built"] a(2) q
    unfolding f by (simp add: s new_OctreeIterator_fp_def)
  ultimately show ?thesis
    using a q f s by simp
qed

text \<open>
  C5 as stated fails on both sides. The radius \<open>-1\<close> is not in \<open>(0, size)\<close>, yet the call is
  not rejected: the only test, \<open>-1 < size\<close>, passes. And for the radius \<open>0.5\<close> in the octree
  of depth 3 whose size is the double below 8, the call succeeds and stores the active
  depth 0, while \<open>D - floor (log2 (size / (2 r)))\<close> is 1: the logarithm computed in doubles
  is 3.
\<close>

theorem setR_counterexample_fp:
  "\<not> 0 < (- 1 :: real) \<and> - 1 < m_size rt_built
   \<and> (\<forall>it'. setR_fp rt_built rt_it (- 1) \<noteq> Inr (False, it'))
   \<and> (0::real) < 1/2 \<and> 1/2 < m_size r5_octree \<and> m_depth r5_octree = 3
   \<and> int (m_depth r5_octree) - \<lfloor>log 2 (m_size r5_octree / (2 * (1/2)))\<rfloor> = 1
   \<and> setR_fp r5_octree rt_it (1/2)
       = Inr (True, rt_it\<lparr>m_radius := 1/2, m_sqradius := 1/4, m_activeDepth := 0\<rparr>)"
proof -
  have "- 1 < m_size rt_built"
    by (simp add: rt_built_def rt_fl)
  then show ?thesis
    using setR_fp_not_reject [of "- 1" rt_built rt_it] r5_formula r5_setR [of rt_it] by simp
qed

text \<open>
  C6, as the code has it. With an explicit query node the cells passed to \<^verbatim>\<open>explore\<close> all
  have the depth of the query node, whatever the active depth is; that depth is
  \<open>max (depth of the query node) d\<close> only when the query node is not below the active depth.
\<close>

theorem explored_cells_depth:
  "\<forall>n \<in> set (explored_cells oc it query query_node (search_level it query_node)).
     getDepth n = getDepth query_node
     \<and> (m_activeDepth it \<le> getDepth query_node \<longrightarrow>
          getDepth n = max (getDepth query_node) (m_activeDepth it))"
  by (auto simp: explored_cells_def search_level_def Let_def split: if_splits)

theorem explored_cells_depth_witness:
  "explored_cells ex_built ex_it (ex_samples ! 1) ex_cell6 (search_level ex_it ex_cell6) = [ex_cell6]
   \<and> m_activeDepth ex_it \<le> getDepth ex_cell6
   \<and> getDepth ex_cell6 = max (getDepth ex_cell6) (m_activeDepth ex_it)"
proof -
  have ev: "explored_cells ex_built ex_it (ex_samples ! 1) ex_cell6 (search_level ex_it ex_cell6)
      = [ex_cell6]"
    by (simp add: ex_defs ex_it_def query_defs new_Sample_def getChild_def pow2_def Let_def)
  have d: "m_activeDepth ex_it \<le> getDepth ex_cell6"
    by (simp add: ex_it_def ex_cell6_def)
  have "ex_cell6 \<in> set (explored_cells ex_built ex_it (ex_samples ! 1) ex_cell6
      (search_level ex_it ex_cell6))"
    unfolding ev by simp
  then have "getDepth ex_cell6 = max (getDepth ex_cell6) (m_activeDepth ex_it)"
    using explored_cells_depth [of ex_built ex_it "ex_samples ! 1" ex_cell6] d by blast
  then show ?thesis
    using ev d by blast
qed

text \<open>
  C6 as stated fails when the query node is below the active depth: with the active depth
  1 and the leaf of the first sample (depth 0) as the query node, the search is made at
  level 0 and the cell explored is that leaf, of depth 0 and not \<open>max 0 1 = 1\<close>.
\<close>

theorem explored_cells_counterexample:
  "getDepth ex_leaf0 \<noteq> m_activeDepth ex_it
   \<and> explored_cells ex_built ex_it (ex_samples ! 0) ex_leaf0 (search_level ex_it ex_leaf0) = [ex_leaf0]
   \<and> getDepth ex_leaf0 \<noteq> max (getDepth ex_leaf0) (m_activeDepth ex_it)"
  by (simp add: ex_defs ex_it_def query_defs new_Sample_def getChild_def pow2_def Let_def)


text \<open>
  C1, on the input of two samples at distance 0.9 with the radius 1. The octree is built,
  the selection object is made (its \<^verbatim>\<open>setR\<close> is rejected, the radius being the size of the
  octree), and the dart thrower returns without having processed any cell: both samples
  keep the \<^verbatim>\<open>selected = true\<close> of their constructor although their squared distance
  \<open>0.81\<close> is below the squared radius.
\<close>

theorem dart_throwing_keeps_close_pair:
  "addPoints (initialize (setDepth new_Octree 0) c1_origin 1) c1_samples = Inr c1_built
   \<and> new_SampleSelection 1 c1_built (new_OctreeIterator c1_built)
       = Inr (c1_sel, new_OctreeIterator c1_built)
   \<and> performDartThrowingSelection c1_built c1_sel rnd = Inr (c1_built, c1_sel)
   \<and> m_selected (store c1_built ! 0) \<and> m_selected (store c1_built ! 1)
   \<and> dist2 (store c1_built ! 0) (store c1_built ! 1) < s_radius c1_sel * s_radius c1_sel"
  by (simp add: c1_build c1_new_sel c1_run) (simp add: c1_defs new_Sample_def dist2_def)

text \<open>
  C10, on the same input: after the dart thrower the first sample is selected, but it is
  not covered and its counter is 0.
\<close>

theorem dart_throwing_selected_uncovered:
  "performDartThrowingSelection c1_built c1_sel rnd = Inr (c1_built, c1_sel)
   \<and> m_selected (store c1_built ! 0) \<and> \<not> m_covered (store c1_built ! 0)
   \<and> m_ncovered (store c1_built ! 0) = 0"
  by (simp add: c1_run) (simp add: c1_defs new_Sample_def)

text \<open>
  C4, as the code has it. For two identical samples at the origin and the radius \<open>0.1\<close>,
  in the octree of depth 3 over the cube of side \<open>0.8\<close> centred at the origin: the greedy
  engine finds two neighbours for each sample, fewer than three, and leaves both
  unselected and uncovered; the dart thrower, whatever the random numbers, selects one of
  the two samples (which is covered by itself) and leaves the other covered and unselected.
\<close>

theorem identical_pair_selection:
  "addPoints (initialize (setDepth new_Octree 3) c4_origin (4/5)) c4_samples = Inr c4_built
   \<and> new_SampleSelection (1/10) c4_built (new_OctreeIterator c4_built) = Inr (c4_sel, c4_it)
   \<and> performSelection c4_built c4_it c4_sel
       = (c4_built\<lparr>store := [(new_Sample 0 0 0)\<lparr>m_selected := False\<rparr>,
                                (new_Sample 0 0 0)\<lparr>m_selected := False\<rparr>]\<rparr>, c4_sel)
   \<and> performDartThrowingSelection c4_built c4_sel rnd
       = Inr (c4_built\<lparr>store := c4_result (rnd 7 0 0 mod 2)\<rparr>,
              c4_sel\<lparr>m_selected_samples := [rnd 7 0 0 mod 2], m_nselected := 1\<rparr>)
   \<and> rnd 7 0 0 mod 2 < 2"
  by (simp add: c4_build c4_new_sel c4_greedy c4_dart)

text \<open>
  C4 as stated fails for the greedy engine: on that input the first sample does not end
  selected and the second does not end covered.
\<close>

theorem identical_pair_counterexample:
  "addPoints (initialize (setDepth new_Octree 3) c4_origin (4/5)) c4_samples = Inr c4_built
   \<and> new_SampleSelection (1/10) c4_built (new_OctreeIterator c4_built) = Inr (c4_sel, c4_it)
   \<and> \<not> m_selected (store (fst (performSelection c4_built c4_it c4_sel)) ! 0)
   \<and> \<not> m_covered (store (fst (performSelection c4_built c4_it c4_sel)) ! 1)"
  by (simp add: c4_build c4_new_sel c4_greedy) (simp add: new_Sample_def)

text \<open>
  C7. The round trip fails in double precision. In the octree of depth 2 with the origin
  \<open>-0.05\<close> and the size \<open>0.9\<close>, at the active depth 0 (the depth of the leaves: depths count
  from the leaves up to the root, of depth \<open>D\<close>) \<^verbatim>\<open>locatePointNode\<close> returns for the first
  sample \<open>(0.175, 0.175, 0.175)\<close> the leaf of the second sample, which holds no copy of the
  first: \<^verbatim>\<open>addPoint\<close> computes \<open>(p - o) / size * 4 = 0.9999999999999999\<close> and files the sample
  under the code 0, and \<^verbatim>\<open>computeCode\<close> computes \<open>(p - o) * (1 / size * 4) = 1.0\<close> and looks
  under the code 1. At the active depth \<open>D = 2\<close>, the one a new iterator has,
  \<^verbatim>\<open>locatePointNode\<close> does not descend and returns the root.
\<close>

theorem locatePointNode_misses_leaf:
  "in_box rt_origin (fl 0.9) (rt_samples ! 0) \<and> in_box rt_origin (fl 0.9) (rt_samples ! 1)
   \<and> build_fp 2 rt_origin (fl 0.9) rt_samples = Inr rt_built
   \<and> it_setDepth_fp rt_built (new_OctreeIterator_fp rt_built) 0 = (True, rt_it0)
   \<and> locatePointNode_fp rt_built rt_it0 (rt_samples ! 0) = Inr rt_leaf7
   \<and> getDepth rt_leaf7 = 0 \<and> m_points rt_leaf7 = [1] \<and> 0 \<notin> set (m_points rt_leaf7)
   \<and> locCode_fp rt_built (m_x (rt_samples ! 0)) (m_x (m_origin rt_built)) = Some 0
   \<and> map_option fst (computeCode_fp rt_built (rt_samples ! 0)) = Some 1
   \<and> m_activeDepth (new_OctreeIterator_fp rt_built) = m_depth rt_built
   \<and> locatePointNode_fp rt_built (new_OctreeIterator_fp rt_built) (rt_samples ! 0) = Inr rt_root
   \<and> getDepth rt_root = 2 \<and> m_points rt_root = []"
proof -
  have c: "locCode_fp rt_built (m_x (rt_samples ! 0)) (m_x (m_origin rt_built)) = Some 0"
    "map_option fst (computeCode_fp rt_built (rt_samples ! 0)) = Some 1"
    by (simp_all add: rt_defs locCode_fp_def computeCode_fp_def new_Sample_def to_uint_def
        Let_def rt_fl)
  have r: "getDepth rt_leaf7 = 0" "m_points rt_leaf7 = [1]" "getDepth rt_root = 2"
    "m_points rt_root = []" "m_activeDepth (new_OctreeIterator_fp rt_built) = m_depth rt_built"
    by (simp_all add: rt_leaf7_def rt_root_def new_OctreeIterator_fp_def Let_def)
  show ?thesis
    using rt_in_box(1,2) rt_build rt_setDepth rt_locate rt_locate_root c r by simp
qed

text \<open>
  C9. Bucket non-adjacency. In an octree built by \<^verbatim>\<open>addPoints\<close> from an initialised octree,
  for every depth \<open>k\<close>, when the bucketed \<^verbatim>\<open>getNodes(k, root, node_collection)\<close> returns,
  any two nodes at different positions of the same bucket have locational codes that
  differ by at least \<open>2 * 2 ^ k\<close> on at least one axis: they are not face, edge or corner
  neighbours at depth \<open>k\<close>.
\<close>

theorem bucket_non_adjacent:
  assumes "addPoints (initialize oc0 origin sz) pts = Inr oc"
    and "getNodes_buckets k (m_root oc) [] = Inr node_collection"
    and "b < length node_collection" and "i < j" and "j < length (node_collection ! b)"
  shows "2 * 2 ^ k \<le> \<bar>int (unat (getXLoc (node_collection ! b ! i)))
                        - int (unat (getXLoc (node_collection ! b ! j)))\<bar>
    \<or> 2 * 2 ^ k \<le> \<bar>int (unat (getYLoc (node_collection ! b ! i)))
                        - int (unat (getYLoc (node_collection ! b ! j)))\<bar>
    \<or> 2 * 2 ^ k \<le> \<bar>int (unat (getZLoc (node_collection ! b ! i)))
                        - int (unat (getZLoc (node_collection ! b ! j)))\<bar>"
proof -
  let ?m = "node_collection ! b ! i" and ?m' = "node_collection ! b ! j"
  note T = built_shape [OF assms(1)]
  note B = bucket_nodes [OF T assms(2,3)]
  have i: "i < length (node_collection ! b)"
    using assms(4,5) by simp
  have "map loc3 (node_collection ! b) ! i \<noteq> map loc3 (node_collection ! b) ! j"
    using B(2) assms(4,5) i by (simp add: nth_eq_iff_index_eq del: nth_map)
  then have ne: "loc3 ?m \<noteq> loc3 ?m'"
    using assms(5) i by simp
  obtain z where m: "cell_ok (m_depth oc) (m_origin oc) (m_size oc) (\<lambda>_ _. True) ?m"
    "getDepth ?m = k" "getNChild ?m = Some z" "unat z = b"
    using B(3) [of ?m] i by auto
  obtain z' where m': "cell_ok (m_depth oc) (m_origin oc) (m_size oc) (\<lambda>_ _. True) ?m'"
    "getDepth ?m' = k" "getNChild ?m' = Some z'" "unat z' = b"
    using B(3) [of ?m'] assms(5) by auto
  have zz: "unat z = unat z'"
    using m(4) m'(4) by simp
  note par = same_bucket_parity [OF m(1) m'(1) m(2) m'(2) m(3) m'(3) zz]
  have d: "2 ^ k dvd unat (getXLoc ?m)" "2 ^ k dvd unat (getYLoc ?m)" "2 ^ k dvd unat (getZLoc ?m)"
    using m(1,2) by (simp_all add: cell_ok_def axis_ok_def)
  have d': "2 ^ k dvd unat (getXLoc ?m')" "2 ^ k dvd unat (getYLoc ?m')"
    "2 ^ k dvd unat (getZLoc ?m')"
    using m'(1,2) by (simp_all add: cell_ok_def axis_ok_def)
  consider "unat (getXLoc ?m) \<noteq> unat (getXLoc ?m')" | "unat (getYLoc ?m) \<noteq> unat (getYLoc ?m')"
    | "unat (getZLoc ?m) \<noteq> unat (getZLoc ?m')"
    using ne by (auto simp: loc3_def word_unat_eq_iff)
  then show ?thesis
  proof cases
    case 1
    then show ?thesis
      using axis_far [OF d(1) d'(1)] par(1) by (simp add: parity_def)
  next
    case 2
    then show ?thesis
      using axis_far [OF d(2) d'(2)] par(2) by (simp add: parity_def)
  next
    case 3
    then show ?thesis
      using axis_far [OF d(3) d'(3)] par(3) by (simp add: parity_def)
  qed
qed


theorem bucket_non_adjacent_witness:
  "addPoints (initialize (setDepth new_Octree 2) \<lparr>m_x = 0, m_y = 0, m_z = 0\<rparr> 4) c9_samples
     = Inr c9_built
   \<and> getNodes_buckets 0 (m_root c9_built) [] = Inr c9_buckets
   \<and> 0 < length c9_buckets \<and> (0::nat) < 1 \<and> 1 < length (c9_buckets ! 0)
   \<and> c9_buckets ! 0 ! 0 = c9_leaf1 \<and> c9_buckets ! 0 ! 1 = c9_leaf0
   \<and> (2 * 2 ^ 0 \<le> \<bar>int (unat (getXLoc c9_leaf1)) - int (unat (getXLoc c9_leaf0))\<bar>
      \<or> 2 * 2 ^ 0 \<le> \<bar>int (unat (getYLoc c9_leaf1)) - int (unat (getYLoc c9_leaf0))\<bar>
      \<or> 2 * 2 ^ 0 \<le> \<bar>int (unat (getZLoc c9_leaf1)) - int (unat (getZLoc c9_leaf0))\<bar>)"
proof -
  have l: "0 < length c9_buckets" "(0::nat) < 1" "1 < length (c9_buckets ! 0)"
    and e: "c9_buckets ! 0 ! 0 = c9_leaf1" "c9_buckets ! 0 ! 1 = c9_leaf0"
    by (simp_all add: c9_buckets_def)
  show ?thesis
    using bucket_non_adjacent [OF c9_build c9_nodes l] c9_build c9_nodes l
    unfolding e by blast
qed

end
